theory Spec2Isabelle
  imports Complex_Main "HOL-Library.AList" "HOL-Library.Sublist"
begin

section \<open>Animation source reconstruction: the embedded program\<close>

text \<open>
  The theory embeds \<^verbatim>\<open>decompile_anims.py\<close>. Python exceptions are values of the
  datatype \<open>exn\<close> on the left of a sum; Python \<^verbatim>\<open>int\<close> is \<open>int\<close>; Python \<^verbatim>\<open>float\<close>
  is modelled by \<open>real\<close> (finite values only, no NaN and no infinities); a \<^verbatim>\<open>dict\<close> is
  an association list updated with \<open>AList.update\<close>, which keeps the position of an
  existing key and appends a new one, as Python's insertion-ordered dictionaries do.
  Reading and writing files and the path arithmetic are taken as they succeed: a
  loader is a function, a path carries its attributes, and what a function does to
  the outside is the list of events it returns.
\<close>

datatype exn = ValueError | IndexError | TypeError | NameError

subsection \<open>Clips of a model script\<close>

text \<open>
  One animation of a \<^verbatim>\<open>ModelScript\<close>: the attributes the program reads
  (\<^verbatim>\<open>name\<close>, \<^verbatim>\<open>model\<close>, \<^verbatim>\<open>first_frame\<close>, \<^verbatim>\<open>last_frame\<close>, \<^verbatim>\<open>fps\<close>, \<^verbatim>\<open>speed\<close>).
\<close>

record ani =
  ani_name :: string
  model :: string
  first_frame :: int
  last_frame :: int
  ani_fps :: real
  speed :: real

subsection \<open>\<^verbatim>\<open>is_continuous_and_non_overlapping\<close>\<close>

text \<open>
  The loop \<^verbatim>\<open>for i in range(1, len(ranges))\<close> over the sorted list, with its two
  early returns, as a recursion over adjacent pairs.
\<close>

fun scan_ranges :: "ani list \<Rightarrow> bool" where
  "scan_ranges (prv # cur # rs) =
     (if first_frame cur \<le> last_frame prv then False
      else if first_frame cur \<noteq> last_frame prv + 1 then False
      else scan_ranges (cur # rs))"
| "scan_ranges _ = True"

text \<open>\<^verbatim>\<open>sorted(ranges, key=lambda x: x.first_frame)\<close> is a stable sort, as \<open>sort_key\<close> is.\<close>

definition is_continuous_and_non_overlapping :: "ani list \<Rightarrow> bool" where
  "is_continuous_and_non_overlapping ranges = scan_ranges (sort_key first_frame ranges)"

subsection \<open>\<^verbatim>\<open>find_best_anis_combo\<close>\<close>

text \<open>
  \<^verbatim>\<open>itertools.combinations(xs, r)\<close>: the \<open>r\<close>-element selections of positions of \<open>xs\<close>,
  each in the order of \<open>xs\<close>, emitted in lexicographic order of the positions.
\<close>

fun combinations :: "'a list \<Rightarrow> nat \<Rightarrow> 'a list list" where
  "combinations xs 0 = [[]]"
| "combinations [] (Suc r) = []"
| "combinations (x # xs) (Suc r) = map ((#) x) (combinations xs r) @ combinations xs (Suc r)"

text \<open>\<^verbatim>\<open>min(...)\<close> and \<^verbatim>\<open>max(...)\<close> of a generator raise \<^verbatim>\<open>ValueError\<close> when it is empty.\<close>

fun py_min :: "int list \<Rightarrow> exn + int" where
  "py_min [] = Inl ValueError"
| "py_min (x # xs) = Inr (fold min xs x)"

fun py_max :: "int list \<Rightarrow> exn + int" where
  "py_max [] = Inl ValueError"
| "py_max (x # xs) = Inr (fold max xs x)"

text \<open>The body of the two nested loops of lines 63 to 67, for one \<^verbatim>\<open>combo\<close>.\<close>

definition keep_larger :: "ani list \<Rightarrow> ani list \<Rightarrow> ani list" where
  "keep_larger combo best_combo =
     (if is_continuous_and_non_overlapping combo
      then (if length combo > length best_combo then combo else best_combo)
      else best_combo)"

text \<open>\<^verbatim>\<open>for r in range(2, len(anis) + 1): for combo in combinations(anis, r): ...\<close>\<close>

definition search_combos :: "ani list \<Rightarrow> ani list" where
  "search_combos anis =
     fold (\<lambda>r best_combo. fold keep_larger (combinations anis r) best_combo)
       [2 ..< length anis + 1] []"

definition frame_span :: "ani \<Rightarrow> int" where
  "frame_span a = last_frame a - first_frame a"

definition not_sped_up :: "ani \<Rightarrow> bool" where
  "not_sped_up a \<longleftrightarrow> ani_fps a = 25 \<and> speed a = 0"

text \<open>Lines 71 to 80: the clip with the largest frame span.\<close>

definition largest_span :: "ani list \<Rightarrow> exn + ani list" where
  "largest_span anis =
     (case py_max (map frame_span anis) of
        Inl e \<Rightarrow> Inl e
      | Inr max_span \<Rightarrow>
          (let best_combo = filter (\<lambda>a. frame_span a = max_span) anis in
           if length best_combo > 1 then
             (let notSpedUp = filter not_sped_up best_combo in
              if notSpedUp = [] then
                (case best_combo of [] \<Rightarrow> Inl IndexError | b # _ \<Rightarrow> Inr [b])
              else
                (case notSpedUp of [] \<Rightarrow> Inl IndexError | b # _ \<Rightarrow> Inr [b]))
           else Inr best_combo))"

datatype reason = Best_combination | Largest_frame_span | No_full_cover

text \<open>Lines 62 to 80: the selection before the check of the full range.\<close>

definition select_combo :: "ani list \<Rightarrow> exn + (reason \<times> ani list)" where
  "select_combo anis =
     (let best_combo = search_combos anis in
      if best_combo = [] then
        (case largest_span anis of
           Inl e \<Rightarrow> Inl e
         | Inr best_combo' \<Rightarrow> Inr (Largest_frame_span, best_combo'))
      else Inr (Best_combination, best_combo))"

text \<open>
  What the function prints: the source track, the reason, the picked clips and the
  dropped ones.
\<close>

record report =
  rep_asc_name :: string
  rep_reason :: reason
  rep_picked :: "ani list"
  rep_dropped :: "ani list"

text \<open>
  Lines 82 to 102: the range of the selection against the full range, the dropped
  clips and the printed report, which is returned beside the chosen clips.
  \<open>py_in a xs\<close> stands for \<^verbatim>\<open>a in xs\<close> on the animation objects of \<^verbatim>\<open>zenkit\<close>: how two
  such objects compare is decided in that library, so the test is a parameter.
\<close>

definition check_full_range :: "(ani \<Rightarrow> ani list \<Rightarrow> bool) \<Rightarrow> string \<Rightarrow> ani list \<Rightarrow> int \<Rightarrow> int
    \<Rightarrow> reason \<times> ani list \<Rightarrow> exn + (report option \<times> ani list)" where
  "check_full_range py_in asc_name anis full_start full_end sel =
     (case py_min (map first_frame (snd sel)) of
        Inl e \<Rightarrow> Inl e
      | Inr best_combo_start \<Rightarrow>
          (case py_max (map last_frame (snd sel)) of
             Inl e \<Rightarrow> Inl e
           | Inr best_combo_end \<Rightarrow>
               (let final =
                      (if best_combo_start \<noteq> full_start \<or> best_combo_end \<noteq> full_end
                       then (No_full_cover, anis) else sel);
                    best_combo = snd final;
                    remaining_anis =
                      (if length best_combo \<noteq> length anis
                       then filter (\<lambda>a. \<not> py_in a best_combo) anis else [])
                in Inr (Some \<lparr>rep_asc_name = asc_name, rep_reason = fst final,
                              rep_picked = best_combo, rep_dropped = remaining_anis\<rparr>,
                        best_combo))))"

text \<open>
  The whole function. A single clip is returned at once and nothing is printed.
\<close>

definition find_best_anis_combo :: "(ani \<Rightarrow> ani list \<Rightarrow> bool) \<Rightarrow> string \<Rightarrow> ani list
    \<Rightarrow> exn + (report option \<times> ani list)" where
  "find_best_anis_combo py_in asc_name anis =
     (if length anis = 1 then Inr (None, anis)
      else
        (case py_min (map first_frame anis) of
           Inl e \<Rightarrow> Inl e
         | Inr full_start \<Rightarrow>
             (case py_max (map last_frame anis) of
                Inl e \<Rightarrow> Inl e
              | Inr full_end \<Rightarrow>
                  (case select_combo anis of
                     Inl e \<Rightarrow> Inl e
                   | Inr sel \<Rightarrow> check_full_range py_in asc_name anis full_start full_end sel))))"

text \<open>
  The order in which the two loops meet the combinations: sizes ascending from 2,
  and within a size the order of \<open>combinations\<close>.
\<close>

definition enumerate_combos :: "ani list \<Rightarrow> ani list list" where
  "enumerate_combos anis = concat (map (combinations anis) [2 ..< length anis + 1])"

subsection \<open>Skeletons and sample streams\<close>

text \<open>
  A hierarchy dictionary (\<^verbatim>\<open>mdh_dict\<close>) with the keys the program reads:
  \<^verbatim>\<open>'checksum'\<close> and \<^verbatim>\<open>'nodes'\<close>, a list of nodes with a \<^verbatim>\<open>'name'\<close>.
\<close>

record node =
  node_name :: string

record mdh =
  mdh_checksum :: int
  nodes :: "node list"

record vec3 =
  vx :: real
  vy :: real
  vz :: real

record quat =
  qx :: real
  qy :: real
  qz :: real
  qw :: real

record sample =
  smp_position :: vec3
  smp_rotation :: quat

text \<open>A loaded \<^verbatim>\<open>ModelAnimation\<close>.\<close>

record model_animation =
  man_checksum :: int
  man_frame_count :: int
  man_fps :: real
  man_fps_source :: real
  man_layer :: int
  node_indices :: "int list"
  samples :: "sample list"

text \<open>
  The dictionary under a bone name, with its two keys, and the animation dictionary.
  The type parameter is the type of the values stored under a sample index.
\<close>

record 'v bone_tracks =
  translation :: "(nat \<times> 'v) list"
  rotation :: "(nat \<times> 'v) list"

record 'v animation_data =
  checksum :: int
  frame_count :: int
  fps :: real
  fps_source :: real
  layer :: int
  source_script :: "(string \<times> string) list"
  frames :: "(string \<times> 'v bone_tracks) list"

subsection \<open>\<^verbatim>\<open>rf\<close> and \<^verbatim>\<open>parse_man\<close>\<close>

text \<open>
  \<^verbatim>\<open>round(f, n)\<close> on a real: the nearest multiple of \<open>10\<^sup>-\<^sup>n\<close>, a tie going to the
  even multiple.
\<close>

definition py_round :: "real \<Rightarrow> nat \<Rightarrow> real" where
  "py_round f n =
     (let s = f * 10 ^ n; fl = \<lfloor>s\<rfloor>; r = s - of_int fl
      in of_int (if r < 1 / 2 then fl else if 1 / 2 < r then fl + 1
                 else if even fl then fl else fl + 1) / 10 ^ n)"

definition rf :: "real \<Rightarrow> real" where
  "rf f = py_round f 4"

text \<open>Python list indexing: a negative index counts from the end.\<close>

definition py_index :: "'a list \<Rightarrow> int \<Rightarrow> exn + 'a" where
  "py_index xs i =
     (if 0 \<le> i \<and> i < int (length xs) then Inr (xs ! nat i)
      else if i < 0 \<and> - int (length xs) \<le> i then Inr (xs ! nat (int (length xs) + i))
      else Inl IndexError)"

text \<open>Lines 141 to 153: the entry of one sample under its bone.\<close>

definition store_sample :: "string \<Rightarrow> nat \<Rightarrow> sample
    \<Rightarrow> (string \<times> real list bone_tracks) list \<Rightarrow> (string \<times> real list bone_tracks) list" where
  "store_sample bone_name sample_index smp fr =
     (let fr1 = (if map_of fr bone_name = None
                 then AList.update bone_name \<lparr>translation = [], rotation = []\<rparr> fr else fr);
          translation0 = [vx (smp_position smp), vy (smp_position smp), vz (smp_position smp)];
          rotation0 = [qx (smp_rotation smp), qy (smp_rotation smp), qz (smp_rotation smp),
                       qw (smp_rotation smp)];
          translation1 = map rf translation0;
          rotation1 = map rf rotation0;
          fr2 = AList.map_entry bone_name
                  (\<lambda>bt. bt\<lparr>translation := AList.update sample_index translation1 (translation bt)\<rparr>) fr1
      in AList.map_entry bone_name
           (\<lambda>bt. bt\<lparr>rotation := AList.update sample_index rotation1 (rotation bt)\<rparr>) fr2)"

text \<open>The loop of lines 133 to 155 over \<^verbatim>\<open>enumerate(model_animation.samples)\<close>.\<close>

fun parse_samples :: "mdh \<Rightarrow> int list \<Rightarrow> nat \<Rightarrow> nat \<Rightarrow> sample list
    \<Rightarrow> (string \<times> real list bone_tracks) list \<Rightarrow> exn + (string \<times> real list bone_tracks) list" where
  "parse_samples mdh_dict ni bone_offset sample_index [] fr = Inr fr"
| "parse_samples mdh_dict ni bone_offset sample_index (smp # smps) fr =
     (let bone_offset1 = (if bone_offset \<ge> length ni then 0 else bone_offset) in
      case py_index ni (int bone_offset1) of
        Inl e \<Rightarrow> Inl e
      | Inr bone_index \<Rightarrow>
          (case py_index (nodes mdh_dict) bone_index of
             Inl e \<Rightarrow> Inl e
           | Inr nd \<Rightarrow>
               parse_samples mdh_dict ni (bone_offset1 + 1) (sample_index + 1) smps
                 (store_sample (node_name nd) sample_index smp fr)))"

text \<open>\<^verbatim>\<open>parse_man\<close> returns \<^verbatim>\<open>None\<close> on a checksum mismatch, the dictionary otherwise.\<close>

definition parse_man :: "model_animation \<Rightarrow> mdh \<Rightarrow> exn + real list animation_data option" where
  "parse_man model_animation mdh_dict =
     (if man_checksum model_animation \<noteq> mdh_checksum mdh_dict then Inr None
      else
        (case parse_samples mdh_dict (node_indices model_animation) 0 0
                (samples model_animation) [] of
           Inl e \<Rightarrow> Inl e
         | Inr fr \<Rightarrow>
             Inr (Some \<lparr>checksum = man_checksum model_animation,
                        frame_count = man_frame_count model_animation,
                        fps = man_fps model_animation,
                        fps_source = man_fps_source model_animation,
                        layer = man_layer model_animation,
                        source_script = [], frames = fr\<rparr>)))"

subsection \<open>\<^verbatim>\<open>convert_anis\<close>\<close>

text \<open>
  Lines 196 to 198: \<^verbatim>\<open>for v in values: merged[bone][trackName][frame] = v\<close> assigns
  every component of the vector to the same key, one after the other.
\<close>

definition merge_values :: "nat \<Rightarrow> real list \<Rightarrow> (nat \<times> real) list \<Rightarrow> (nat \<times> real) list" where
  "merge_values frame values tf = fold (\<lambda>v m. AList.update frame v m) values tf"

definition merge_track :: "(nat \<times> real list) list \<Rightarrow> (nat \<times> real) list \<Rightarrow> (nat \<times> real) list" where
  "merge_track trackFrames tf = fold (\<lambda>(frame, values) m. merge_values frame values m) trackFrames tf"

text \<open>
  Lines 191 to 198 for one bone of \<^verbatim>\<open>man_data['frames']\<close>; \<^verbatim>\<open>tracks.items()\<close> yields
  \<^verbatim>\<open>'translation'\<close>, then \<^verbatim>\<open>'rotation'\<close>.
\<close>

definition merge_bone :: "string \<times> real list bone_tracks
    \<Rightarrow> (string \<times> real bone_tracks) list \<Rightarrow> (string \<times> real bone_tracks) list" where
  "merge_bone entry mf =
     (let bone = fst entry; tracks = snd entry;
          mf1 = (if map_of mf bone = None
                 then AList.update bone \<lparr>translation = [], rotation = []\<rparr> mf else mf);
          mf2 = AList.map_entry bone
                  (\<lambda>bt. bt\<lparr>translation := merge_track (translation tracks) (translation bt)\<rparr>) mf1
      in AList.map_entry bone
           (\<lambda>bt. bt\<lparr>rotation := merge_track (rotation tracks) (rotation bt)\<rparr>) mf2)"

text \<open>
  The loop of lines 188 to 198. Its state is the merged \<^verbatim>\<open>'frames'\<close> dictionary and the
  variable \<^verbatim>\<open>man_data\<close>, which holds the last decoded clip when the loop ends. Reading
  \<^verbatim>\<open>man_data['frames']\<close> of a \<^verbatim>\<open>None\<close> raises \<^verbatim>\<open>TypeError\<close>.
\<close>

fun merge_loop :: "mdh \<Rightarrow> model_animation list
    \<Rightarrow> (string \<times> real bone_tracks) list \<times> real list animation_data option
    \<Rightarrow> exn + ((string \<times> real bone_tracks) list \<times> real list animation_data option)" where
  "merge_loop mdh_dict [] st = Inr st"
| "merge_loop mdh_dict (model_animation # mas) st =
     (case parse_man model_animation mdh_dict of
        Inl e \<Rightarrow> Inl e
      | Inr None \<Rightarrow> Inl TypeError
      | Inr (Some man_data) \<Rightarrow>
          merge_loop mdh_dict mas (fold merge_bone (frames man_data) (fst st), Some man_data))"

record man_data_merged =
  hierarchy :: mdh
  animation :: "real animation_data"

text \<open>
  Lines 176 to 198, after the two checks: the header is built from \<^verbatim>\<open>checksum\<close> and
  from the variable \<^verbatim>\<open>model_animation\<close>, which still holds the stream loaded last.
\<close>

definition merge_anis :: "mdh \<Rightarrow> int \<Rightarrow> model_animation \<Rightarrow> model_animation list
    \<Rightarrow> exn + (man_data_merged \<times> real list animation_data option)" where
  "merge_anis mdh_dict checksum0 model_animation model_animations =
     (case merge_loop mdh_dict model_animations ([], None) of
        Inl e \<Rightarrow> Inl e
      | Inr st \<Rightarrow>
          Inr (\<lparr>hierarchy = mdh_dict,
                animation = \<lparr>checksum = checksum0,
                  frame_count = man_frame_count model_animation,
                  fps = man_fps model_animation,
                  fps_source = man_fps_source model_animation,
                  layer = man_layer model_animation,
                  source_script = [], frames = fst st\<rparr>\<rparr>, snd st))"

text \<open>
  A \<^verbatim>\<open>.MAN\<close> path with the two attributes the program uses, and what the function does
  to the outside before it ends: it prints and it writes one JSON text.
  \<^verbatim>\<open>json.dumps\<close> receives a dictionary, which is the payload of \<open>Write_text\<close>.
\<close>

record man_file =
  relative_to_extract_path :: string
  stem :: string

datatype event =
    Print string
  | Write_text string "real list animation_data"

text \<open>
  \<^verbatim>\<open>convert_anis\<close>. \<open>load\<close> stands for \<^verbatim>\<open>ModelAnimation.load\<close>; \<^verbatim>\<open>mds_name\<close> and \<^verbatim>\<open>anis\<close>
  are not read by the function and are left out. The result is the list of events
  that have happened and the exception that ended the call, if one did.

  After the loop \<^verbatim>\<open>man_file\<close> is the last path, and \<^verbatim>\<open>json.dumps\<close> is given \<^verbatim>\<open>man_data\<close>.
  Line 207 then reads the name \<^verbatim>\<open>blender_script_file_path\<close> as an argument of
  \<^verbatim>\<open>helpers.run_blender\<close>. No statement of the module binds this name (the globals are
  \<^verbatim>\<open>extract_path\<close>, \<^verbatim>\<open>intermediate_path\<close>, \<^verbatim>\<open>convert_path\<close> and
  \<^verbatim>\<open>blender_executable_file_path\<close>, and every import is a plain \<^verbatim>\<open>import\<close>), so the
  call raises \<^verbatim>\<open>NameError\<close> after the file is written and \<^verbatim>\<open>prepared: ...\<close> is printed;
  the bake tool is not started and line 208 is not reached.
\<close>

definition convert_anis :: "(man_file \<Rightarrow> model_animation) \<Rightarrow> string \<Rightarrow> man_file list
    \<Rightarrow> (int \<times> mdh) list \<Rightarrow> event list \<times> exn option" where
  "convert_anis load asc_name man_file_paths mdh_dict =
     (let model_animations = map load man_file_paths;
          checksums = remdups (map man_checksum model_animations)
      in if length checksums \<noteq> 1
         then ([Print (''ASC: '' @ asc_name @ '', ani checksums are different. ABORT'')], None)
         else
           (case model_animations of
              [] \<Rightarrow> ([], Some IndexError)
            | ma0 # _ \<Rightarrow>
                (case map_of mdh_dict (man_checksum ma0) of
                   None \<Rightarrow>
                     ([Print (''ASC: '' @ asc_name @ '', could not find correct MDH. ABORT'')], None)
                 | Some mdh0 \<Rightarrow>
                     (let relative_path = relative_to_extract_path (last man_file_paths) in
                      case merge_anis mdh0 (man_checksum ma0) (last model_animations)
                             model_animations of
                        Inl e \<Rightarrow> ([], Some e)
                      | Inr res \<Rightarrow>
                          (case snd res of
                             None \<Rightarrow> ([], Some NameError)
                           | Some man_data \<Rightarrow>
                               ([Write_text (relative_path @ ''.json'') man_data,
                                 Print (''prepared: '' @ relative_path)],
                                Some NameError))))))"

subsection \<open>\<^verbatim>\<open>convert\<close>: the hierarchy index and the loop over the source tracks\<close>

text \<open>Lines 259 to 264: \<^verbatim>\<open>mdh_by_checksum[mdh_dict['checksum']] = mdh_dict\<close> for every file.\<close>

definition mdh_by_checksum :: "mdh list \<Rightarrow> (int \<times> mdh) list" where
  "mdh_by_checksum mdh_dicts = fold (\<lambda>d m. AList.update (mdh_checksum d) d m) mdh_dicts []"

text \<open>
  Lines 280 to 286: one call of \<^verbatim>\<open>convert_anis\<close> for every source track. An exception
  ends the loop; the events before it, those of the failing call among them, have
  happened.
\<close>

fun convert_loop :: "(man_file \<Rightarrow> model_animation) \<Rightarrow> man_file list \<Rightarrow> (int \<times> mdh) list
    \<Rightarrow> (string \<times> ani list) list \<Rightarrow> event list \<times> exn option" where
  "convert_loop load man_file_path_list idx [] = ([], None)"
| "convert_loop load man_file_path_list idx (item # items) =
     (let ani_names = set (map ani_name (snd item));
          man_files = filter (\<lambda>path. stem path \<in> ani_names) man_file_path_list;
          this = convert_anis load (fst item) man_files idx
      in case snd this of
           Some e \<Rightarrow> (fst this, Some e)
         | None \<Rightarrow>
             (let later = convert_loop load man_file_path_list idx items
              in (fst this @ fst later, snd later)))"

subsection \<open>Reading the dictionaries\<close>

datatype track = Translation | Rotation

definition track_frames :: "track \<Rightarrow> 'v bone_tracks \<Rightarrow> (nat \<times> 'v) list" where
  "track_frames t bt = (case t of Translation \<Rightarrow> translation bt | Rotation \<Rightarrow> rotation bt)"

text \<open>\<^verbatim>\<open>frames[bone][track][i]\<close>, or \<open>None\<close> when a key is missing.\<close>

definition lookup_entry :: "(string \<times> 'v bone_tracks) list \<Rightarrow> string \<Rightarrow> track \<Rightarrow> nat \<Rightarrow> 'v option" where
  "lookup_entry fr bone t i =
     (case map_of fr bone of None \<Rightarrow> None | Some bt \<Rightarrow> map_of (track_frames t bt) i)"

text \<open>The rounded vector that \<^verbatim>\<open>parse_man\<close> stores for a sample on a track.\<close>

definition sample_vector :: "track \<Rightarrow> sample \<Rightarrow> real list" where
  "sample_vector t smp =
     (case t of
        Translation \<Rightarrow> map rf [vx (smp_position smp), vy (smp_position smp), vz (smp_position smp)]
      | Rotation \<Rightarrow> map rf [qx (smp_rotation smp), qy (smp_rotation smp), qz (smp_rotation smp),
                            qw (smp_rotation smp)])"

text \<open>
  \<open>v\<close> is \<open>x\<close> rounded to 4 decimal places: a multiple of \<open>10\<^sup>-\<^sup>4\<close> at distance at most
  half of \<open>10\<^sup>-\<^sup>4\<close> from \<open>x\<close>. This is the property, written without the program's
  \<open>rf\<close>.
\<close>

definition rounded_4 :: "real \<Rightarrow> real \<Rightarrow> bool" where
  "rounded_4 x v \<longleftrightarrow> (\<exists>k::int. v = of_int k / 10 ^ 4 \<and> \<bar>v - x\<bar> \<le> 1 / (2 * 10 ^ 4))"

text \<open>
  The bone of the sample at flat index \<open>i\<close>:
  \<^verbatim>\<open>mdh_dict['nodes'][node_indices[i mod len(node_indices)]]\<close>.
\<close>

definition bone_at :: "mdh \<Rightarrow> int list \<Rightarrow> nat \<Rightarrow> exn + node" where
  "bone_at mdh_dict ni i = py_index (nodes mdh_dict) (ni ! (i mod length ni))"

text \<open>
  Dictionaries whose association lists have no repeated key and hold no empty vector:
  what \<^verbatim>\<open>parse_man\<close> builds.
\<close>

definition wf_tracks :: "'v list bone_tracks \<Rightarrow> bool" where
  "wf_tracks bt \<longleftrightarrow>
     distinct (map fst (translation bt)) \<and> distinct (map fst (rotation bt)) \<and>
     (\<forall>k. map_of (translation bt) k \<noteq> Some []) \<and>
     (\<forall>k. map_of (rotation bt) k \<noteq> Some [])"

definition wf_frames :: "(string \<times> 'v list bone_tracks) list \<Rightarrow> bool" where
  "wf_frames fr \<longleftrightarrow>
     distinct (map fst fr) \<and> (\<forall>b bt. map_of fr b = Some bt \<longrightarrow> wf_tracks bt)"

subsection \<open>Sample inputs\<close>

definition skel :: mdh where
  "skel = \<lparr>mdh_checksum = 7, nodes = [\<lparr>node_name = ''A''\<rparr>, \<lparr>node_name = ''B''\<rparr>]\<rparr>"

definition pos_sample :: "real \<Rightarrow> real \<Rightarrow> real \<Rightarrow> sample" where
  "pos_sample x y z = \<lparr>smp_position = \<lparr>vx = x, vy = y, vz = z\<rparr>,
               smp_rotation = \<lparr>qx = 0, qy = 0, qz = 0, qw = 1\<rparr>\<rparr>"

definition full_sample :: "real \<Rightarrow> real \<Rightarrow> real \<Rightarrow> real \<Rightarrow> real \<Rightarrow> real \<Rightarrow> real \<Rightarrow> sample" where
  "full_sample x y z a b c d = \<lparr>smp_position = \<lparr>vx = x, vy = y, vz = z\<rparr>,
               smp_rotation = \<lparr>qx = a, qy = b, qz = c, qw = d\<rparr>\<rparr>"

definition stream :: "int \<Rightarrow> int \<Rightarrow> int list \<Rightarrow> sample list \<Rightarrow> model_animation" where
  "stream c n ni smps =
     \<lparr>man_checksum = c, man_frame_count = n, man_fps = 25, man_fps_source = 25,
      man_layer = 1, node_indices = ni, samples = smps\<rparr>"

definition man_path :: "string \<Rightarrow> man_file" where
  "man_path s = \<lparr>relative_to_extract_path = ''ANIMS/'' @ s @ ''.MAN'', stem = s\<rparr>"

text \<open>
  Streams on the skeleton \<open>skel\<close> and one of another skeleton, and a loader that finds
  them by the stem of the path. \<open>clip_d\<close> differs from \<open>clip_c\<close> in the first two
  components of its position; \<open>clip_r\<close> has samples that rounding changes; \<open>clip_bad\<close>
  names a bone the skeleton does not have.
\<close>

definition clip_a :: model_animation where
  "clip_a = stream 7 1 [0] [pos_sample 1 2 3]"

definition clip_b :: model_animation where
  "clip_b = stream 7 2 [1] [pos_sample 4 5 6]"

definition clip_c :: model_animation where
  "clip_c = stream 7 3 [0] [pos_sample 7 8 9]"

definition clip_d :: model_animation where
  "clip_d = stream 7 3 [0] [pos_sample 0 0 9]"

definition clip_r :: model_animation where
  "clip_r = stream 7 2 [0, 1]
     [full_sample (12344 / 100000) (100006 / 100000) (- 5 / 2) 0 0 (70711 / 100000) (- 70711 / 100000),
      pos_sample 4 5 6,
      pos_sample (1 / 3) (2 / 3) 9]"

definition clip_bad :: model_animation where
  "clip_bad = stream 7 1 [5] [pos_sample 1 2 3]"

definition clip_x :: model_animation where
  "clip_x = stream 8 1 [0] [pos_sample 1 2 3]"

definition load_sample :: "man_file \<Rightarrow> model_animation" where
  "load_sample p =
     (if stem p = ''a'' then clip_a else if stem p = ''b'' then clip_b
      else if stem p = ''c'' then clip_c else clip_x)"

definition clip :: "string \<Rightarrow> int \<Rightarrow> int \<Rightarrow> real \<Rightarrow> ani" where
  "clip n a b f =
     \<lparr>ani_name = n, model = ''T.ASC'', first_frame = a, last_frame = b, ani_fps = f, speed = 0\<rparr>"

definition sped_clip :: "string \<Rightarrow> int \<Rightarrow> int \<Rightarrow> real \<Rightarrow> real \<Rightarrow> ani" where
  "sped_clip n a b f s =
     \<lparr>ani_name = n, model = ''T.ASC'', first_frame = a, last_frame = b, ani_fps = f, speed = s\<rparr>"

section \<open>The range analyzer\<close>

lemma scan_ranges_iff:
  "scan_ranges s \<longleftrightarrow> (\<forall>i. 0 < i \<and> i < length s \<longrightarrow> first_frame (s ! i) = last_frame (s ! (i - 1)) + 1)"
proof (induction s rule: scan_ranges.induct)
  case (1 prv cur rs)
  show ?case
  proof (cases "first_frame cur = last_frame prv + 1")
    case True
    have "(\<forall>i. 0 < i \<and> i < length (prv # cur # rs) \<longrightarrow>
            first_frame ((prv # cur # rs) ! i) = last_frame ((prv # cur # rs) ! (i - 1)) + 1)
          \<longleftrightarrow> (\<forall>i. 0 < i \<and> i < length (cur # rs) \<longrightarrow>
            first_frame ((cur # rs) ! i) = last_frame ((cur # rs) ! (i - 1)) + 1)"
      (is "?L \<longleftrightarrow> ?R")
    proof
      assume L: ?L
      show ?R
      proof (intro allI impI)
        fix i assume "0 < i \<and> i < length (cur # rs)"
        then show "first_frame ((cur # rs) ! i) = last_frame ((cur # rs) ! (i - 1)) + 1"
          using L [rule_format, of "Suc i"] by simp
      qed
    next
      assume R: ?R
      show ?L
      proof (intro allI impI)
        fix i assume i: "0 < i \<and> i < length (prv # cur # rs)"
        show "first_frame ((prv # cur # rs) ! i) = last_frame ((prv # cur # rs) ! (i - 1)) + 1"
        proof (cases "i = 1")
          case True
          then show ?thesis using \<open>first_frame cur = last_frame prv + 1\<close> by simp
        next
          case False
          then obtain j where j: "i = Suc j" "0 < j" using i by (cases i) auto
          then show ?thesis using R [rule_format, of j] i by simp
        qed
      qed
    qed
    with True 1 show ?thesis by simp
  next
    case False
    then have "\<not> (\<forall>i. 0 < i \<and> i < length (prv # cur # rs) \<longrightarrow>
            first_frame ((prv # cur # rs) ! i) = last_frame ((prv # cur # rs) ! (i - 1)) + 1)"
      by (auto intro!: exI [of _ 1])
    with False show ?thesis by auto
  qed
qed simp_all

text \<open>
  Claim C7. \<^verbatim>\<open>is_continuous_and_non_overlapping\<close> returns true exactly when, in the list
  sorted by \<open>first_frame\<close>, every clip starts one frame after the end of the clip
  before it; a single clip passes. The function is pure: it reads its argument and
  returns a truth value. The last three conjuncts say what the sorted list is: ordered
  by \<open>first_frame\<close>, with the clips of the input.
\<close>

theorem contiguous_iff_adjacent:
  "(is_continuous_and_non_overlapping ranges \<longleftrightarrow>
      (\<forall>i. 0 < i \<and> i < length (sort_key first_frame ranges) \<longrightarrow>
           first_frame (sort_key first_frame ranges ! i)
             = last_frame (sort_key first_frame ranges ! (i - 1)) + 1))
   \<and> is_continuous_and_non_overlapping [c]
   \<and> sorted (map first_frame (sort_key first_frame ranges))
   \<and> set (sort_key first_frame ranges) = set ranges
   \<and> length (sort_key first_frame ranges) = length ranges"
  by (simp add: is_continuous_and_non_overlapping_def scan_ranges_iff)

theorem contiguous_iff_adjacent_witness:
  "is_continuous_and_non_overlapping
     [clip ''b'' 10 19 25,
      clip ''a'' 0 9 25]
   \<and> \<not> is_continuous_and_non_overlapping
     [clip ''b'' 11 19 25,
      clip ''a'' 0 9 25]"
proof -
  let ?a = "clip ''a'' 0 9 25"
  let ?b = "clip ''b'' 10 19 25"
  let ?c = "clip ''b'' 11 19 25"
  have s1: "sort_key first_frame [?b, ?a] = [?a, ?b]" by (simp add: clip_def)
  have s2: "sort_key first_frame [?c, ?a] = [?a, ?c]" by (simp add: clip_def)
  have "\<forall>i. 0 < i \<and> i < length (sort_key first_frame [?b, ?a]) \<longrightarrow>
           first_frame (sort_key first_frame [?b, ?a] ! i)
             = last_frame (sort_key first_frame [?b, ?a] ! (i - 1)) + 1"
    unfolding s1 by (auto simp: less_Suc_eq clip_def)
  then have yes: "is_continuous_and_non_overlapping [?b, ?a]"
    using contiguous_iff_adjacent [of "[?b, ?a]"] by blast
  have "\<not> (\<forall>i. 0 < i \<and> i < length (sort_key first_frame [?c, ?a]) \<longrightarrow>
           first_frame (sort_key first_frame [?c, ?a] ! i)
             = last_frame (sort_key first_frame [?c, ?a] ! (i - 1)) + 1)"
    unfolding s2 by (auto intro!: exI [of _ 1] simp: clip_def)
  then have "\<not> is_continuous_and_non_overlapping [?c, ?a]"
    using contiguous_iff_adjacent [of "[?c, ?a]"] by blast
  with yes show ?thesis by blast
qed

section \<open>The combination selector\<close>

lemma combinations_iff:
  "ys \<in> set (combinations xs r) \<longleftrightarrow> subseq ys xs \<and> length ys = r"
proof (induction xs r arbitrary: ys rule: combinations.induct)
  case (1 xs)
  then show ?case by auto
next
  case (2 r)
  then show ?case by auto
next
  case (3 x xs r)
  show ?case
  proof (cases ys)
    case Nil
    then show ?thesis using 3 by auto
  next
    case (Cons y zs)
    then show ?thesis using 3 by (auto simp: subseq_Cons')
  qed
qed

lemma fold_keep_larger_snoc:
  "fold keep_larger (xs @ [x]) b = keep_larger x (fold keep_larger xs b)"
  by simp

lemma fold_keep_larger:
  "let r = fold keep_larger xs b in
     length b \<le> length r \<and>
     (\<forall>c \<in> set xs. is_continuous_and_non_overlapping c \<longrightarrow> length c \<le> length r) \<and>
     (if length r = length b then r = b
      else is_continuous_and_non_overlapping r \<and>
           (\<exists>pre post. xs = pre @ r # post \<and>
              (\<forall>c \<in> set pre. is_continuous_and_non_overlapping c \<longrightarrow> length c < length r)))"
proof (induction xs rule: rev_induct)
  case Nil
  then show ?case by simp
next
  case (snoc x xs)
  define r where "r = fold keep_larger xs b"
  have IH: "length b \<le> length r"
    "\<forall>c \<in> set xs. is_continuous_and_non_overlapping c \<longrightarrow> length c \<le> length r"
    "length r = length b \<Longrightarrow> r = b"
    "length r \<noteq> length b \<Longrightarrow> is_continuous_and_non_overlapping r \<and>
           (\<exists>pre post. xs = pre @ r # post \<and>
              (\<forall>c \<in> set pre. is_continuous_and_non_overlapping c \<longrightarrow> length c < length r))"
    using snoc unfolding r_def Let_def by (simp_all split: if_splits)
  show ?case
  proof (cases "is_continuous_and_non_overlapping x \<and> length r < length x")
    case True
    then have eq: "fold keep_larger (xs @ [x]) b = x"
      by (simp add: keep_larger_def r_def)
    have "\<exists>pre post. xs @ [x] = pre @ x # post \<and>
              (\<forall>c \<in> set pre. is_continuous_and_non_overlapping c \<longrightarrow> length c < length x)"
      using IH(2) True by (intro exI [of _ xs] exI [of _ "[]"]) auto
    then show ?thesis unfolding eq Let_def using True IH(1,2) by auto
  next
    case False
    then have eq: "fold keep_larger (xs @ [x]) b = r"
      by (auto simp add: keep_larger_def r_def)
    have "length r \<noteq> length b \<Longrightarrow> \<exists>pre post. xs @ [x] = pre @ r # post \<and>
              (\<forall>c \<in> set pre. is_continuous_and_non_overlapping c \<longrightarrow> length c < length r)"
    proof -
      assume "length r \<noteq> length b"
      then obtain pre post where "xs = pre @ r # post"
        "\<forall>c \<in> set pre. is_continuous_and_non_overlapping c \<longrightarrow> length c < length r"
        using IH(4) by blast
      then show ?thesis by (intro exI [of _ pre] exI [of _ "post @ [x]"]) auto
    qed
    then show ?thesis unfolding eq Let_def using False IH by auto
  qed
qed

lemma fold_fold_concat:
  "fold (\<lambda>r b. fold f (g r) b) rs b = fold f (concat (map g rs)) b"
  by (induction rs arbitrary: b) auto

lemma search_combos_enumerate:
  "search_combos anis = fold keep_larger (enumerate_combos anis) []"
  unfolding search_combos_def enumerate_combos_def by (rule fold_fold_concat)

lemma enumerate_combos_iff:
  "ys \<in> set (enumerate_combos anis) \<longleftrightarrow> subseq ys anis \<and> 2 \<le> length ys"
  unfolding enumerate_combos_def
  by (auto simp: combinations_iff dest: list_emb_length)

lemma search_combos_props:
  "let r = search_combos anis in
     (\<forall>c \<in> set (enumerate_combos anis). is_continuous_and_non_overlapping c \<longrightarrow> length c \<le> length r) \<and>
     (r \<noteq> [] \<longrightarrow> is_continuous_and_non_overlapping r \<and>
           (\<exists>pre post. enumerate_combos anis = pre @ r # post \<and>
              (\<forall>c \<in> set pre. is_continuous_and_non_overlapping c \<longrightarrow> length c < length r)))"
  using fold_keep_larger [of "enumerate_combos anis" "[]"]
  unfolding search_combos_enumerate Let_def by (auto split: if_splits)

lemma search_combos_empty_iff:
  "search_combos anis = [] \<longleftrightarrow>
     (\<forall>ys. subseq ys anis \<and> 2 \<le> length ys \<longrightarrow> \<not> is_continuous_and_non_overlapping ys)"
proof
  assume e: "search_combos anis = []"
  show "\<forall>ys. subseq ys anis \<and> 2 \<le> length ys \<longrightarrow> \<not> is_continuous_and_non_overlapping ys"
  proof (intro allI impI notI)
    fix ys assume "subseq ys anis \<and> 2 \<le> length ys" "is_continuous_and_non_overlapping ys"
    then have "length ys \<le> length (search_combos anis)"
      using search_combos_props [of anis] unfolding Let_def by (simp add: enumerate_combos_iff)
    with e \<open>subseq ys anis \<and> 2 \<le> length ys\<close> show False by simp
  qed
next
  assume a: "\<forall>ys. subseq ys anis \<and> 2 \<le> length ys \<longrightarrow> \<not> is_continuous_and_non_overlapping ys"
  show "search_combos anis = []"
  proof (rule ccontr)
    assume ne: "search_combos anis \<noteq> []"
    then obtain pre post where "is_continuous_and_non_overlapping (search_combos anis)"
      "enumerate_combos anis = pre @ search_combos anis # post"
      using search_combos_props [of anis] unfolding Let_def by blast
    then have "search_combos anis \<in> set (enumerate_combos anis)"
      "is_continuous_and_non_overlapping (search_combos anis)" by simp_all
    with a show False by (simp add: enumerate_combos_iff)
  qed
qed

lemma find_append_first:
  "xs = pre @ x # post \<Longrightarrow> P x \<Longrightarrow> \<forall>c \<in> set pre. \<not> P c \<Longrightarrow> List.find P xs = Some x"
  by (induction pre arbitrary: xs) auto

text \<open>
  Claim C4. When some selection of two or more clips passes the range analyzer, the
  selection kept by the search has two or more clips, passes, is at least as long as
  every passing selection of clips of the input, and is the first passing selection of
  its length in the
  order of enumeration (sizes ascending from 2, then the order of \<open>combinations\<close>).
\<close>

theorem search_keeps_first_largest:
  assumes "2 \<le> length anis"
    and "\<exists>ys. subseq ys anis \<and> 2 \<le> length ys \<and> is_continuous_and_non_overlapping ys"
  shows "\<exists>best. select_combo anis = Inr (Best_combination, best) \<and>
           subseq best anis \<and> 2 \<le> length best \<and> is_continuous_and_non_overlapping best \<and>
           (\<forall>ys. subseq ys anis \<and> is_continuous_and_non_overlapping ys
                 \<longrightarrow> length ys \<le> length best) \<and>
           List.find (\<lambda>c. is_continuous_and_non_overlapping c \<and> length c = length best)
             (enumerate_combos anis) = Some best"
proof -
  define best where "best = search_combos anis"
  have ne: "best \<noteq> []"
    using assms(2) search_combos_empty_iff [of anis] unfolding best_def by blast
  have sel: "select_combo anis = Inr (Best_combination, best)"
    using ne by (simp add: select_combo_def best_def Let_def)
  obtain pre post where cont: "is_continuous_and_non_overlapping best"
    and dec: "enumerate_combos anis = pre @ best # post"
    and first: "\<forall>c \<in> set pre. is_continuous_and_non_overlapping c \<longrightarrow> length c < length best"
    using search_combos_props [of anis] ne unfolding Let_def best_def by blast
  have mem: "best \<in> set (enumerate_combos anis)" using dec by simp
  then have sub: "subseq best anis" "2 \<le> length best"
    by (simp_all add: enumerate_combos_iff)
  have mx2: "\<forall>ys. subseq ys anis \<and> 2 \<le> length ys \<and> is_continuous_and_non_overlapping ys
                 \<longrightarrow> length ys \<le> length best"
    using search_combos_props [of anis] unfolding Let_def best_def
    by (simp add: enumerate_combos_iff)
  have mx: "\<forall>ys. subseq ys anis \<and> is_continuous_and_non_overlapping ys
                 \<longrightarrow> length ys \<le> length best"
  proof (intro allI impI)
    fix ys assume a: "subseq ys anis \<and> is_continuous_and_non_overlapping ys"
    show "length ys \<le> length best"
    proof (cases "2 \<le> length ys")
      case True
      with a mx2 show ?thesis by blast
    next
      case False
      with sub(2) show ?thesis by simp
    qed
  qed
  have "List.find (\<lambda>c. is_continuous_and_non_overlapping c \<and> length c = length best)
             (enumerate_combos anis) = Some best"
    by (rule find_append_first [OF dec]) (use cont first in auto)
  with sel sub cont mx show ?thesis by blast
qed

theorem search_keeps_first_largest_witness:
  "2 \<le> length [clip ''a'' 0 9 25, clip ''c'' 5 30 25, clip ''b'' 10 19 25] \<and>
   (\<exists>ys. subseq ys [clip ''a'' 0 9 25, clip ''c'' 5 30 25, clip ''b'' 10 19 25] \<and> 2 \<le> length ys \<and>
         is_continuous_and_non_overlapping ys) \<and>
   select_combo [clip ''a'' 0 9 25, clip ''c'' 5 30 25, clip ''b'' 10 19 25]
     = Inr (Best_combination, [clip ''a'' 0 9 25, clip ''b'' 10 19 25])"
proof -
  let ?W = "[clip ''a'' 0 9 25, clip ''c'' 5 30 25, clip ''b'' 10 19 25]"
  have h1: "2 \<le> length ?W" by simp
  have "subseq [clip ''a'' 0 9 25, clip ''b'' 10 19 25] ?W \<and>
        2 \<le> length [clip ''a'' 0 9 25, clip ''b'' 10 19 25] \<and>
        is_continuous_and_non_overlapping [clip ''a'' 0 9 25, clip ''b'' 10 19 25]"
    by (simp add: is_continuous_and_non_overlapping_def clip_def)
  then have h2: "\<exists>ys. subseq ys ?W \<and> 2 \<le> length ys \<and> is_continuous_and_non_overlapping ys"
    by (rule exI)
  obtain best where b: "select_combo ?W = Inr (Best_combination, best)"
    using search_keeps_first_largest [OF h1 h2] by blast
  have "select_combo ?W = Inr (Best_combination, [clip ''a'' 0 9 25, clip ''b'' 10 19 25])"
    by (simp add: select_combo_def search_combos_def keep_larger_def
        is_continuous_and_non_overlapping_def clip_def numeral_2_eq_2 numeral_3_eq_3)
  with h1 h2 b show ?thesis by blast
qed

lemma py_max_Max: "xs \<noteq> [] \<Longrightarrow> py_max xs = Inr (Max (set xs))"
  using Max.set_eq_fold [of "hd xs" "tl xs"] by (cases xs) simp_all

lemma py_min_Min: "xs \<noteq> [] \<Longrightarrow> py_min xs = Inr (Min (set xs))"
  using Min.set_eq_fold [of "hd xs" "tl xs"] by (cases xs) simp_all

lemma find_filter_hd: "filter P xs = y # ys \<Longrightarrow> List.find P xs = Some y"
  by (induction xs) (auto split: if_splits)

lemma largest_span_one:
  assumes "anis \<noteq> []"
  shows "\<exists>c. largest_span anis = Inr [c] \<and> c \<in> set anis \<and>
          (\<forall>a \<in> set anis. frame_span a \<le> frame_span c) \<and>
          (if filter not_sped_up (filter (\<lambda>a. frame_span a = frame_span c) anis) = []
           then List.find (\<lambda>a. frame_span a = frame_span c) anis = Some c
           else List.find (\<lambda>a. frame_span a = frame_span c \<and> not_sped_up a) anis = Some c)"
proof -
  define M where "M = Max (set (map frame_span anis))"
  define tied where "tied = filter (\<lambda>a. frame_span a = M) anis"
  have pm: "py_max (map frame_span anis) = Inr M"
    using assms by (simp add: py_max_Max M_def)
  have "M \<in> set (map frame_span anis)" unfolding M_def using assms by (intro Max_in) auto
  then have tne: "tied \<noteq> []" unfolding tied_def by (auto simp: filter_empty_conv)
  have Mge: "\<forall>a \<in> set anis. frame_span a \<le> M" unfolding M_def by auto
  have tiedM: "\<And>c. c \<in> set tied \<Longrightarrow> frame_span c = M \<and> c \<in> set anis" unfolding tied_def by auto
  obtain t ts where t: "tied = t # ts" using tne by (cases tied) auto
  have ls: "largest_span anis =
     (if length tied > 1 then
        (if filter not_sped_up tied = [] then
           (case tied of [] \<Rightarrow> Inl IndexError | b # _ \<Rightarrow> Inr [b])
         else (case filter not_sped_up tied of [] \<Rightarrow> Inl IndexError | b # _ \<Rightarrow> Inr [b]))
      else Inr tied)"
    by (simp only: largest_span_def pm sum.case Let_def tied_def)
  show ?thesis
  proof (cases "filter not_sped_up tied")
    case Nil
    have r: "largest_span anis = Inr [t]"
      unfolding ls using t Nil by (cases ts) simp_all
    have st: "frame_span t = M" "t \<in> set anis" using tiedM [of t] t by auto
    have "List.find (\<lambda>a. frame_span a = M) anis = Some t"
      using t unfolding tied_def by (rule find_filter_hd)
    with r st Mge Nil show ?thesis unfolding tied_def by (intro exI [of _ t]) simp
  next
    case (Cons n ns)
    have nin: "n \<in> set (filter not_sped_up tied)" using Cons by simp
    then have sn: "frame_span n = M" "n \<in> set anis" "not_sped_up n" using tiedM [of n] by auto
    have r: "largest_span anis = Inr [n]"
    proof (cases ts)
      case Nil
      with t nin have "n = t" by (auto split: if_splits)
      with t Nil show ?thesis unfolding ls by simp
    next
      case (Cons u us)
      with t \<open>filter not_sped_up tied = n # ns\<close> show ?thesis unfolding ls by simp
    qed
    have "filter (\<lambda>a. frame_span a = M \<and> not_sped_up a) anis = n # ns"
      using Cons unfolding tied_def by (simp add: conj_commute)
    then have "List.find (\<lambda>a. frame_span a = M \<and> not_sped_up a) anis = Some n"
      by (rule find_filter_hd)
    with r sn Mge Cons show ?thesis unfolding tied_def by (intro exI [of _ n]) simp
  qed
qed

text \<open>
  Claim C5. When no selection of two or more clips passes, the fallback keeps exactly
  one clip, and no clip of the input has a larger \<open>last_frame - first_frame\<close>. It is the
  first clip of that span, in the order of the input, with \<open>fps = 25\<close> and \<open>speed = 0\<close>,
  and the first clip of that span when no clip of that span has both.
\<close>

theorem largest_span_fallback:
  assumes "2 \<le> length anis"
    and "\<forall>ys. subseq ys anis \<and> 2 \<le> length ys \<longrightarrow> \<not> is_continuous_and_non_overlapping ys"
  shows "\<exists>c. select_combo anis = Inr (Largest_frame_span, [c]) \<and> c \<in> set anis \<and>
          (\<forall>a \<in> set anis. last_frame a - first_frame a \<le> last_frame c - first_frame c) \<and>
          (if \<exists>a \<in> set anis. last_frame a - first_frame a = last_frame c - first_frame c \<and>
                               ani_fps a = 25 \<and> speed a = 0
           then List.find (\<lambda>a. last_frame a - first_frame a = last_frame c - first_frame c \<and>
                               ani_fps a = 25 \<and> speed a = 0) anis = Some c
           else List.find (\<lambda>a. last_frame a - first_frame a = last_frame c - first_frame c) anis
                  = Some c)"
proof -
  have e: "search_combos anis = []"
    using assms(2) by (simp add: search_combos_empty_iff)
  have "anis \<noteq> []" using assms(1) by auto
  from largest_span_one [OF this] obtain c where c: "largest_span anis = Inr [c]"
    "c \<in> set anis" "\<forall>a \<in> set anis. frame_span a \<le> frame_span c"
    "if filter not_sped_up (filter (\<lambda>a. frame_span a = frame_span c) anis) = []
           then List.find (\<lambda>a. frame_span a = frame_span c) anis = Some c
           else List.find (\<lambda>a. frame_span a = frame_span c \<and> not_sped_up a) anis = Some c"
    by blast
  have sel: "select_combo anis = Inr (Largest_frame_span, [c])"
    using e c(1) by (simp add: select_combo_def)
  have mx: "\<forall>a \<in> set anis. last_frame a - first_frame a \<le> last_frame c - first_frame c"
    using c(3) by (simp add: frame_span_def)
  have cond: "filter not_sped_up (filter (\<lambda>a. frame_span a = frame_span c) anis) = [] \<longleftrightarrow>
        \<not> (\<exists>a \<in> set anis. last_frame a - first_frame a = last_frame c - first_frame c \<and>
                               ani_fps a = 25 \<and> speed a = 0)"
    by (auto simp: filter_empty_conv frame_span_def not_sped_up_def)
  have tie: "if \<exists>a \<in> set anis. last_frame a - first_frame a = last_frame c - first_frame c \<and>
                               ani_fps a = 25 \<and> speed a = 0
           then List.find (\<lambda>a. last_frame a - first_frame a = last_frame c - first_frame c \<and>
                               ani_fps a = 25 \<and> speed a = 0) anis = Some c
           else List.find (\<lambda>a. last_frame a - first_frame a = last_frame c - first_frame c) anis
                  = Some c"
  proof (cases "\<exists>a \<in> set anis. last_frame a - first_frame a = last_frame c - first_frame c \<and>
                               ani_fps a = 25 \<and> speed a = 0")
    case True
    with cond have "filter not_sped_up (filter (\<lambda>a. frame_span a = frame_span c) anis) \<noteq> []"
      by simp
    with c(4) have "List.find (\<lambda>a. frame_span a = frame_span c \<and> not_sped_up a) anis = Some c"
      by simp
    then have "List.find (\<lambda>a. last_frame a - first_frame a = last_frame c - first_frame c \<and>
                               ani_fps a = 25 \<and> speed a = 0) anis = Some c"
      by (simp add: frame_span_def not_sped_up_def)
    then show ?thesis unfolding if_P [OF True] .
  next
    case False
    with cond have "filter not_sped_up (filter (\<lambda>a. frame_span a = frame_span c) anis) = []"
      by simp
    with c(4) have "List.find (\<lambda>a. frame_span a = frame_span c) anis = Some c"
      by simp
    then have "List.find (\<lambda>a. last_frame a - first_frame a = last_frame c - first_frame c) anis
                  = Some c"
      by (simp add: frame_span_def)
    then show ?thesis unfolding if_not_P [OF False] .
  qed
  from sel c(2) mx tie show ?thesis by blast
qed

theorem largest_span_fallback_witness:
  "2 \<le> length [sped_clip ''s'' 2 6 25 0, sped_clip ''a'' 0 9 25 1, sped_clip ''b'' 5 14 25 0] \<and>
   enumerate_combos [sped_clip ''s'' 2 6 25 0, sped_clip ''a'' 0 9 25 1, sped_clip ''b'' 5 14 25 0] =
     [[sped_clip ''s'' 2 6 25 0, sped_clip ''a'' 0 9 25 1],
      [sped_clip ''s'' 2 6 25 0, sped_clip ''b'' 5 14 25 0],
      [sped_clip ''a'' 0 9 25 1, sped_clip ''b'' 5 14 25 0],
      [sped_clip ''s'' 2 6 25 0, sped_clip ''a'' 0 9 25 1, sped_clip ''b'' 5 14 25 0]] \<and>
   \<not> is_continuous_and_non_overlapping [sped_clip ''s'' 2 6 25 0, sped_clip ''a'' 0 9 25 1] \<and>
   \<not> is_continuous_and_non_overlapping [sped_clip ''s'' 2 6 25 0, sped_clip ''b'' 5 14 25 0] \<and>
   \<not> is_continuous_and_non_overlapping [sped_clip ''a'' 0 9 25 1, sped_clip ''b'' 5 14 25 0] \<and>
   \<not> is_continuous_and_non_overlapping
       [sped_clip ''s'' 2 6 25 0, sped_clip ''a'' 0 9 25 1, sped_clip ''b'' 5 14 25 0] \<and>
   select_combo [sped_clip ''s'' 2 6 25 0, sped_clip ''a'' 0 9 25 1, sped_clip ''b'' 5 14 25 0]
     = Inr (Largest_frame_span, [sped_clip ''b'' 5 14 25 0])"
proof -
  let ?s = "sped_clip ''s'' 2 6 25 0"
  let ?a = "sped_clip ''a'' 0 9 25 1"
  let ?b = "sped_clip ''b'' 5 14 25 0"
  let ?W = "[?s, ?a, ?b]"
  have h1: "2 \<le> length ?W" by simp
  have en: "enumerate_combos ?W = [[?s, ?a], [?s, ?b], [?a, ?b], [?s, ?a, ?b]]"
    by (simp add: enumerate_combos_def numeral_2_eq_2 numeral_3_eq_3)
  have n: "\<not> is_continuous_and_non_overlapping [?s, ?a]"
    "\<not> is_continuous_and_non_overlapping [?s, ?b]"
    "\<not> is_continuous_and_non_overlapping [?a, ?b]"
    "\<not> is_continuous_and_non_overlapping [?s, ?a, ?b]"
    by (simp_all add: is_continuous_and_non_overlapping_def sped_clip_def)
  have h2: "\<forall>ys. subseq ys ?W \<and> 2 \<le> length ys \<longrightarrow> \<not> is_continuous_and_non_overlapping ys"
  proof (intro allI impI)
    fix ys assume "subseq ys ?W \<and> 2 \<le> length ys"
    then have "ys \<in> set (enumerate_combos ?W)" by (simp only: enumerate_combos_iff)
    then have "ys = [?s, ?a] \<or> ys = [?s, ?b] \<or> ys = [?a, ?b] \<or> ys = [?s, ?a, ?b]"
      unfolding en by simp
    with n show "\<not> is_continuous_and_non_overlapping ys" by blast
  qed
  obtain c where c: "select_combo ?W = Inr (Largest_frame_span, [c])"
    "c \<in> set ?W"
    "\<forall>a \<in> set ?W. last_frame a - first_frame a \<le> last_frame c - first_frame c"
    "if \<exists>a \<in> set ?W. last_frame a - first_frame a = last_frame c - first_frame c \<and>
                               ani_fps a = 25 \<and> speed a = 0
           then List.find (\<lambda>a. last_frame a - first_frame a = last_frame c - first_frame c \<and>
                               ani_fps a = 25 \<and> speed a = 0) ?W = Some c
           else List.find (\<lambda>a. last_frame a - first_frame a = last_frame c - first_frame c) ?W
                  = Some c"
    using largest_span_fallback [OF h1 h2] by blast
  from c(2) have "c = ?s \<or> c = ?a \<or> c = ?b" by auto
  then have "c = ?b"
  proof (elim disjE)
    assume "c = ?s"
    with c(3) show ?thesis by (simp add: sped_clip_def)
  next
    assume "c = ?a"
    with c(4) show ?thesis by (simp add: sped_clip_def split: if_splits)
  next
    assume "c = ?b"
    then show ?thesis .
  qed
  with h1 en n c(1) show ?thesis by blast
qed

lemma select_combo_total:
  assumes "anis \<noteq> []"
  shows "\<exists>r sel. select_combo anis = Inr (r, sel) \<and> sel \<noteq> []"
proof (cases "search_combos anis = []")
  case True
  from largest_span_one [OF assms] obtain c where "largest_span anis = Inr [c]" by blast
  with True show ?thesis by (simp add: select_combo_def)
next
  case False
  then show ?thesis by (simp add: select_combo_def Let_def)
qed

text \<open>
  Claim C6. For two or more clips the search or the fallback yields a non-empty
  selection; when its pair (least \<open>first_frame\<close>, greatest \<open>last_frame\<close>) differs from
  the pair of the whole input, the function returns all the input clips. The clips
  with ranges 0 to 9 and 15 to 24 are such an input.
\<close>

theorem no_full_cover_returns_all:
  assumes "2 \<le> length anis"
  shows "\<exists>r sel. select_combo anis = Inr (r, sel) \<and> sel \<noteq> [] \<and>
          ((Min (first_frame ` set sel), Max (last_frame ` set sel))
              \<noteq> (Min (first_frame ` set anis), Max (last_frame ` set anis))
           \<longrightarrow> find_best_anis_combo py_in asc_name anis =
                 Inr (Some \<lparr>rep_asc_name = asc_name, rep_reason = No_full_cover,
                            rep_picked = anis, rep_dropped = []\<rparr>, anis))"
proof -
  have ne: "anis \<noteq> []" and n1: "length anis \<noteq> 1" using assms by auto
  from select_combo_total [OF ne] obtain r sel where
    s: "select_combo anis = Inr (r, sel)" "sel \<noteq> []" by blast
  have "find_best_anis_combo py_in asc_name anis =
                 Inr (Some \<lparr>rep_asc_name = asc_name, rep_reason = No_full_cover,
                            rep_picked = anis, rep_dropped = []\<rparr>, anis)"
    if "(Min (first_frame ` set sel), Max (last_frame ` set sel))
              \<noteq> (Min (first_frame ` set anis), Max (last_frame ` set anis))"
    using that s ne n1
    by (auto simp: find_best_anis_combo_def check_full_range_def py_min_Min py_max_Max Let_def)
  with s show ?thesis by blast
qed

theorem no_full_cover_returns_all_witness:
  "2 \<le> length [clip ''a'' 0 9 25, clip ''b'' 15 24 25] \<and>
   select_combo [clip ''a'' 0 9 25, clip ''b'' 15 24 25] = Inr (Largest_frame_span, [clip ''a'' 0 9 25]) \<and>
   find_best_anis_combo (\<lambda>a xs. a \<in> set xs) ''T.ASC'' [clip ''a'' 0 9 25, clip ''b'' 15 24 25] =
     Inr (Some \<lparr>rep_asc_name = ''T.ASC'', rep_reason = No_full_cover,
                rep_picked = [clip ''a'' 0 9 25, clip ''b'' 15 24 25], rep_dropped = []\<rparr>,
          [clip ''a'' 0 9 25, clip ''b'' 15 24 25])"
proof -
  let ?W = "[clip ''a'' 0 9 25, clip ''b'' 15 24 25]"
  have h1: "2 \<le> length ?W" by simp
  have s: "select_combo ?W = Inr (Largest_frame_span, [clip ''a'' 0 9 25])"
    by (simp add: select_combo_def search_combos_def keep_larger_def largest_span_def
        frame_span_def not_sped_up_def
        is_continuous_and_non_overlapping_def clip_def numeral_2_eq_2)
  have d: "(Min (first_frame ` set [clip ''a'' 0 9 25]), Max (last_frame ` set [clip ''a'' 0 9 25]))
              \<noteq> (Min (first_frame ` set ?W), Max (last_frame ` set ?W))"
    by (simp add: clip_def)
  show ?thesis
    using no_full_cover_returns_all [OF h1, of "\<lambda>a xs. a \<in> set xs" "''T.ASC''"] s d h1 by auto
qed

section \<open>The sample decoder\<close>

text \<open>
  \<open>rf\<close> yields a multiple of \<open>10\<^sup>-\<^sup>4\<close> at distance at most \<open>10\<^sup>-\<^sup>4 / 2\<close> from its argument,
  and leaves such a multiple as it is.
\<close>

lemma rf_rounds:
  "\<exists>k::int. rf x = of_int k / 10 ^ 4 \<and> \<bar>rf x - x\<bar> \<le> 1 / (2 * 10 ^ 4)"
proof -
  define s where "s = x * 10 ^ 4"
  define fl where "fl = \<lfloor>s\<rfloor>"
  define r where "r = s - of_int fl"
  define k where "k = (if r < 1 / 2 then fl else if 1 / 2 < r then fl + 1
                       else if even fl then fl else fl + 1)"
  have rf: "rf x = of_int k / 10 ^ 4"
    by (simp add: rf_def py_round_def Let_def k_def r_def fl_def s_def)
  have r0: "0 \<le> r" "r < 1" unfolding r_def fl_def by linarith+
  have "\<bar>of_int k - s\<bar> \<le> 1 / 2"
    using r0 unfolding k_def r_def by (auto simp: abs_if)
  then have "\<bar>of_int k - s\<bar> / 10 ^ 4 \<le> (1 / 2) / 10 ^ 4"
    by (intro divide_right_mono) simp_all
  moreover have "\<bar>rf x - x\<bar> = \<bar>of_int k - s\<bar> / 10 ^ 4"
    unfolding rf s_def by (simp add: abs_if field_simps)
  ultimately have "\<bar>rf x - x\<bar> \<le> 1 / (2 * 10 ^ 4)" by simp
  with rf show ?thesis by blast
qed

lemma rf_of_decimal: "rf (of_int k / 10 ^ 4) = of_int k / 10 ^ 4"
  by (simp add: rf_def py_round_def Let_def)

lemma rf_idempotent: "rf (rf x) = rf x"
proof -
  obtain k :: int where "rf x = of_int k / 10 ^ 4" using rf_rounds by blast
  then show ?thesis by (simp only: rf_of_decimal)
qed

lemma wf_tracks_empty: "wf_tracks \<lparr>translation = [], rotation = []\<rparr>"
  by (simp add: wf_tracks_def)

lemma wf_tracks_update:
  "wf_tracks bt \<Longrightarrow> v \<noteq> [] \<Longrightarrow> w \<noteq> [] \<Longrightarrow>
   wf_tracks (bt\<lparr>translation := AList.update i v (translation bt),
                  rotation := AList.update i w (rotation bt)\<rparr>)"
  by (simp add: wf_tracks_def update_conv' distinct_update)

lemma lookup_store_sample:
  "lookup_entry (store_sample b i smp fr) b' t j =
     (if b' = b \<and> j = i then Some (sample_vector t smp) else lookup_entry fr b' t j)"
  unfolding store_sample_def lookup_entry_def Let_def
  by (simp add: map_of_map_entry update_conv' track_frames_def sample_vector_def
      split: option.splits track.splits)

lemma wf_store_sample:
  assumes "wf_frames fr"
  shows "wf_frames (store_sample b i smp fr)"
proof -
  have d: "distinct (map fst (store_sample b i smp fr))"
    using assms unfolding wf_frames_def store_sample_def Let_def
    by (simp add: distinct_map_entry distinct_update)
  have old: "\<And>b' bt. map_of fr b' = Some bt \<Longrightarrow> wf_tracks bt"
    using assms unfolding wf_frames_def by blast
  have "wf_tracks bt" if m: "map_of (store_sample b i smp fr) b' = Some bt" for b' bt
  proof (cases "b' = b")
    case False
    with m have "map_of fr b' = Some bt"
      unfolding store_sample_def Let_def
      by (simp add: map_of_map_entry update_conv' split: if_splits)
    then show ?thesis by (rule old)
  next
    case True
    define bt0 where "bt0 = (case map_of fr b of None \<Rightarrow> \<lparr>translation = [], rotation = []\<rparr> | Some x \<Rightarrow> x)"
    have w0: "wf_tracks bt0"
      unfolding bt0_def using old [of b] wf_tracks_empty by (cases "map_of fr b") auto
    have "bt = bt0\<lparr>translation := AList.update i (sample_vector Translation smp) (translation bt0),
                  rotation := AList.update i (sample_vector Rotation smp) (rotation bt0)\<rparr>"
      using m True unfolding store_sample_def Let_def bt0_def sample_vector_def
      by (cases "map_of fr b") (auto simp: map_of_map_entry update_conv')
    moreover have "sample_vector Translation smp \<noteq> []" "sample_vector Rotation smp \<noteq> []"
      by (simp_all add: sample_vector_def)
    ultimately show ?thesis using wf_tracks_update [OF w0] by simp
  qed
  with d show ?thesis unfolding wf_frames_def by blast
qed

lemma py_index_nat: "i < length xs \<Longrightarrow> py_index xs (int i) = Inr (xs ! i)"
  by (simp add: py_index_def)

lemma py_index_error: "py_index xs i = Inl e \<Longrightarrow> e = IndexError"
  by (auto simp: py_index_def split: if_splits)

lemma parse_samples_ok:
  assumes "ni \<noteq> []" "bone_offset \<le> length ni" "bone_offset mod length ni = idx mod length ni"
    and "\<forall>j. idx \<le> j \<and> j < idx + length smps \<longrightarrow> (\<exists>nd. bone_at mdh_dict ni j = Inr nd)"
  shows "\<exists>fr'. parse_samples mdh_dict ni bone_offset idx smps fr = Inr fr' \<and>
           (wf_frames fr \<longrightarrow> wf_frames fr') \<and>
           (\<forall>b t j. lookup_entry fr' b t j =
              (if idx \<le> j \<and> j < idx + length smps \<and>
                  (\<exists>nd. bone_at mdh_dict ni j = Inr nd \<and> node_name nd = b)
               then Some (sample_vector t (smps ! (j - idx)))
               else lookup_entry fr b t j))"
  using assms
proof (induction smps arbitrary: bone_offset idx fr)
  case Nil
  then show ?case by auto
next
  case (Cons smp smps)
  define n where "n = length ni"
  have npos: "0 < n" using Cons.prems(1) by (simp add: n_def)
  define off1 where "off1 = (if bone_offset \<ge> length ni then 0 else bone_offset)"
  have off1: "off1 < n" "off1 = idx mod n"
    using Cons.prems(2,3) npos unfolding off1_def n_def by (auto simp: le_less)
  have ix: "py_index ni (int off1) = Inr (ni ! (idx mod n))"
    using off1 by (simp add: py_index_nat n_def)
  obtain nd where nd: "bone_at mdh_dict ni idx = Inr nd"
    using Cons.prems(4) by force
  then have nd': "py_index (nodes mdh_dict) (ni ! (idx mod n)) = Inr nd"
    by (simp add: bone_at_def n_def)
  define fr1 where "fr1 = store_sample (node_name nd) idx smp fr"
  have step: "parse_samples mdh_dict ni bone_offset idx (smp # smps) fr =
              parse_samples mdh_dict ni (off1 + 1) (idx + 1) smps fr1"
    using ix nd' by (simp add: off1_def [symmetric] fr1_def Let_def)
  have p2: "off1 + 1 \<le> length ni" using off1 by (simp add: n_def)
  have p3: "(off1 + 1) mod length ni = (idx + 1) mod length ni"
    using off1(2) by (simp add: n_def mod_Suc_eq)
  have p4: "\<forall>j. idx + 1 \<le> j \<and> j < idx + 1 + length smps \<longrightarrow> (\<exists>nd. bone_at mdh_dict ni j = Inr nd)"
    using Cons.prems(4) by simp
  from Cons.IH [OF Cons.prems(1) p2 p3 p4, of fr1] obtain fr' where
    r: "parse_samples mdh_dict ni (off1 + 1) (idx + 1) smps fr1 = Inr fr'"
    and w: "wf_frames fr1 \<longrightarrow> wf_frames fr'"
    and l: "\<And>b t j. lookup_entry fr' b t j =
              (if idx + 1 \<le> j \<and> j < idx + 1 + length smps \<and>
                  (\<exists>nd. bone_at mdh_dict ni j = Inr nd \<and> node_name nd = b)
               then Some (sample_vector t (smps ! (j - (idx + 1))))
               else lookup_entry fr1 b t j)"
    by blast
  have w': "wf_frames fr \<longrightarrow> wf_frames fr'"
    using w wf_store_sample unfolding fr1_def by blast
  have "lookup_entry fr' b t j =
              (if idx \<le> j \<and> j < idx + length (smp # smps) \<and>
                  (\<exists>nd. bone_at mdh_dict ni j = Inr nd \<and> node_name nd = b)
               then Some (sample_vector t ((smp # smps) ! (j - idx)))
               else lookup_entry fr b t j)" for b t j
  proof (cases "j = idx")
    case True
    then show ?thesis using nd by (simp add: l fr1_def lookup_store_sample)
  next
    case False
    then have "(smp # smps) ! (j - idx) = smps ! (j - (idx + 1))" if "idx \<le> j"
    proof -
      from that False have "j - idx = Suc (j - (idx + 1))" by simp
      then show ?thesis by simp
    qed
    with False show ?thesis by (auto simp: l fr1_def lookup_store_sample)
  qed
  with r w' step show ?case by auto
qed

lemma parse_samples_fail:
  assumes "ni \<noteq> []" "bone_offset \<le> length ni" "bone_offset mod length ni = idx mod length ni"
    and "\<exists>j. idx \<le> j \<and> j < idx + length smps \<and> (\<forall>nd. bone_at mdh_dict ni j \<noteq> Inr nd)"
  shows "parse_samples mdh_dict ni bone_offset idx smps fr = Inl IndexError"
  using assms
proof (induction smps arbitrary: bone_offset idx fr)
  case Nil
  then show ?case by auto
next
  case (Cons smp smps)
  define n where "n = length ni"
  have npos: "0 < n" using Cons.prems(1) by (simp add: n_def)
  define off1 where "off1 = (if bone_offset \<ge> length ni then 0 else bone_offset)"
  have off1: "off1 < n" "off1 = idx mod n"
    using Cons.prems(2,3) npos unfolding off1_def n_def by (auto simp: le_less)
  have ix: "py_index ni (int off1) = Inr (ni ! (idx mod n))"
    using off1 by (simp add: py_index_nat n_def)
  show ?case
  proof (cases "bone_at mdh_dict ni idx")
    case (Inl e)
    then have "py_index (nodes mdh_dict) (ni ! (idx mod n)) = Inl IndexError"
      using py_index_error [of "nodes mdh_dict" "ni ! (idx mod n)" e]
      by (simp add: bone_at_def n_def)
    then show ?thesis using ix by (simp add: off1_def [symmetric] Let_def)
  next
    case (Inr nd)
    then have nd': "py_index (nodes mdh_dict) (ni ! (idx mod n)) = Inr nd"
      by (simp add: bone_at_def n_def)
    have step: "parse_samples mdh_dict ni bone_offset idx (smp # smps) fr =
              parse_samples mdh_dict ni (off1 + 1) (idx + 1) smps
                (store_sample (node_name nd) idx smp fr)"
      using ix nd' by (simp add: off1_def [symmetric] Let_def)
    have p2: "off1 + 1 \<le> length ni" using off1 by (simp add: n_def)
    have p3: "(off1 + 1) mod length ni = (idx + 1) mod length ni"
      using off1(2) by (simp add: n_def mod_Suc_eq)
    obtain j where j: "idx \<le> j" "j < idx + length (smp # smps)" "\<forall>nd. bone_at mdh_dict ni j \<noteq> Inr nd"
      using Cons.prems(4) by blast
    with Inr have "j \<noteq> idx" by auto
    with j have p4: "\<exists>j. idx + 1 \<le> j \<and> j < idx + 1 + length smps \<and> (\<forall>nd. bone_at mdh_dict ni j \<noteq> Inr nd)"
      by (intro exI [of _ j]) auto
    show ?thesis unfolding step by (rule Cons.IH [OF Cons.prems(1) p2 p3 p4])
  qed
qed

lemma parse_samples_wf:
  "parse_samples mdh_dict ni bone_offset idx smps fr = Inr fr' \<Longrightarrow> wf_frames fr \<Longrightarrow> wf_frames fr'"
proof (induction smps arbitrary: bone_offset idx fr)
  case Nil
  then show ?case by simp
next
  case (Cons smp smps)
  define bo where "bo = (if bone_offset \<ge> length ni then 0 else bone_offset)"
  from Cons.prems(1) obtain bi where bi: "py_index ni (int bo) = Inr bi"
    by (cases "py_index ni (int bo)") (simp_all add: bo_def [symmetric] Let_def)
  from Cons.prems(1) bi obtain nd where nd: "py_index (nodes mdh_dict) bi = Inr nd"
    by (cases "py_index (nodes mdh_dict) bi") (simp_all add: bo_def [symmetric] Let_def)
  from Cons.prems(1) bi nd have
    "parse_samples mdh_dict ni (bo + 1) (idx + 1) smps (store_sample (node_name nd) idx smp fr) = Inr fr'"
    by (simp add: bo_def [symmetric] Let_def)
  then show ?case
    using Cons.IH wf_store_sample [OF Cons.prems(2)] by blast
qed

lemma parse_samples_error:
  "parse_samples mdh_dict ni bone_offset idx smps fr = Inl e \<Longrightarrow> e = IndexError"
proof (induction smps arbitrary: bone_offset idx fr)
  case Nil
  then show ?case by simp
next
  case (Cons smp smps)
  then show ?case
    by (auto simp: Let_def split: sum.splits dest: py_index_error)
qed

lemma wf_frames_Nil: "wf_frames []"
  by (simp add: wf_frames_def)

lemma parse_man_wf: "parse_man ma mdh_dict = Inr (Some d) \<Longrightarrow> wf_frames (frames d)"
  unfolding parse_man_def
  by (auto split: if_splits sum.splits dest: parse_samples_wf [OF _ wf_frames_Nil])

lemma parse_man_error: "parse_man ma mdh_dict = Inl e \<Longrightarrow> e = IndexError"
  unfolding parse_man_def
  by (auto split: if_splits sum.splits dest: parse_samples_error)

lemma parse_man_None_iff:
  "parse_man ma mdh_dict = Inr None \<longleftrightarrow> man_checksum ma \<noteq> mdh_checksum mdh_dict"
  unfolding parse_man_def by (auto split: sum.splits)

lemma lookup_entry_Nil: "lookup_entry [] b t j = None"
  by (simp add: lookup_entry_def)

lemma rf_rounded_4: "rounded_4 x (rf x)"
  using rf_rounds [of x] unfolding rounded_4_def .

lemma rounded_4_unique:
  assumes "rounded_4 x v" and "of_int n - 1 / 2 < x * 10 ^ 4" and "x * 10 ^ 4 < of_int n + 1 / 2"
  shows "v = of_int n / 10 ^ 4"
proof -
  from assms(1) obtain k :: int where k: "v = of_int k / 10 ^ 4"
    and d: "\<bar>v - x\<bar> \<le> 1 / (2 * 10 ^ 4)"
    unfolding rounded_4_def by blast
  have "\<bar>v - x\<bar> * 10 ^ 4 \<le> 1 / (2 * 10 ^ 4) * 10 ^ 4"
    using d by (intro mult_right_mono) simp_all
  moreover have "\<bar>v - x\<bar> * 10 ^ 4 = \<bar>of_int k - x * 10 ^ 4\<bar>"
    unfolding k by (simp add: abs_if field_simps)
  ultimately have "\<bar>of_int k - x * 10 ^ 4\<bar> \<le> 1 / 2" by simp
  with assms(2,3) have "(of_int k :: real) < of_int n + 1" "(of_int n :: real) < of_int k + 1"
    by (auto simp: abs_if split: if_splits)
  then have "k < n + 1" "n < k + 1" by linarith+
  then have "k = n" by simp
  with k show ?thesis by simp
qed

lemma sample_vector_rounded:
  "list_all2 rounded_4
     [vx (smp_position smp), vy (smp_position smp), vz (smp_position smp)]
     (sample_vector Translation smp)"
  "list_all2 rounded_4
     [qx (smp_rotation smp), qy (smp_rotation smp), qz (smp_rotation smp), qw (smp_rotation smp)]
     (sample_vector Rotation smp)"
  by (simp_all add: sample_vector_def rf_rounded_4)

text \<open>
  Claim C8, as it is stated, fails: the stream \<open>clip_bad\<close> has the checksum of the
  skeleton \<open>skel\<close> and a non-empty \<^verbatim>\<open>node_indices\<close>, which names node 5 of a skeleton
  of two nodes; \<^verbatim>\<open>mdh_dict['nodes'][5]\<close> raises \<^verbatim>\<open>IndexError\<close> and nothing is decoded.
\<close>

theorem parse_man_unresolved_index:
  "man_checksum clip_bad = mdh_checksum skel \<and> node_indices clip_bad \<noteq> [] \<and>
   parse_man clip_bad skel = Inl IndexError"
  by (simp add: parse_man_def clip_bad_def stream_def skel_def py_index_def)

text \<open>
  Claim C8, amended. For a stream whose checksum is the skeleton's and whose
  \<^verbatim>\<open>node_indices\<close> is not empty: when every index met resolves to a node of the
  skeleton, \<^verbatim>\<open>parse_man\<close> returns a dictionary in which the sample at flat index \<open>i\<close>
  stands under the name of the node \<open>node_indices[i mod len(node_indices)]\<close>, at the
  key \<open>i\<close> itself, as a vector of three numbers for the position and of four for the
  rotation \<open>(x, y, z, w)\<close>, each the component rounded to 4 decimal places: a
  multiple of \<open>10\<^sup>-\<^sup>4\<close> no further than half of \<open>10\<^sup>-\<^sup>4\<close> from it. The dictionary has no
  other entry, so every key is a flat index below the number of samples. The clip's
  first frame is not an input of the function. When some index does not resolve, the
  list access raises \<^verbatim>\<open>IndexError\<close>.
\<close>

theorem parse_man_decodes:
  assumes "man_checksum ma = mdh_checksum mdh_dict" and "node_indices ma \<noteq> []"
  shows "((\<forall>i < length (samples ma). \<exists>nd. bone_at mdh_dict (node_indices ma) i = Inr nd)
          \<longrightarrow> (\<exists>d. parse_man ma mdh_dict = Inr (Some d) \<and>
                (\<forall>i < length (samples ma). \<exists>nd tr ro.
                    bone_at mdh_dict (node_indices ma) i = Inr nd \<and>
                    lookup_entry (frames d) (node_name nd) Translation i = Some tr \<and>
                    list_all2 rounded_4
                      [vx (smp_position (samples ma ! i)),
                       vy (smp_position (samples ma ! i)),
                       vz (smp_position (samples ma ! i))] tr \<and>
                    lookup_entry (frames d) (node_name nd) Rotation i = Some ro \<and>
                    list_all2 rounded_4
                      [qx (smp_rotation (samples ma ! i)),
                       qy (smp_rotation (samples ma ! i)),
                       qz (smp_rotation (samples ma ! i)),
                       qw (smp_rotation (samples ma ! i))] ro) \<and>
                (\<forall>b t j v. lookup_entry (frames d) b t j = Some v \<longrightarrow>
                    j < length (samples ma) \<and>
                    (\<exists>nd. bone_at mdh_dict (node_indices ma) j = Inr nd \<and> node_name nd = b)))) \<and>
         (\<not> (\<forall>i < length (samples ma). \<exists>nd. bone_at mdh_dict (node_indices ma) i = Inr nd)
          \<longrightarrow> parse_man ma mdh_dict = Inl IndexError)"
proof (cases "\<forall>i < length (samples ma). \<exists>nd. bone_at mdh_dict (node_indices ma) i = Inr nd")
  case True
  then have a4: "\<forall>j. 0 \<le> j \<and> j < 0 + length (samples ma) \<longrightarrow>
                   (\<exists>nd. bone_at mdh_dict (node_indices ma) j = Inr nd)" by simp
  have "\<exists>fr'. parse_samples mdh_dict (node_indices ma) 0 0 (samples ma) [] = Inr fr' \<and>
           (\<forall>b t j. lookup_entry fr' b t j =
              (if j < length (samples ma) \<and>
                  (\<exists>nd. bone_at mdh_dict (node_indices ma) j = Inr nd \<and> node_name nd = b)
               then Some (sample_vector t (samples ma ! j))
               else None))"
    using parse_samples_ok [OF assms(2) _ _ a4, of 0 "[]"] by (auto simp: lookup_entry_Nil)
  then obtain fr' where
    r: "parse_samples mdh_dict (node_indices ma) 0 0 (samples ma) [] = Inr fr'"
    and l: "\<And>b t j. lookup_entry fr' b t j =
              (if j < length (samples ma) \<and>
                  (\<exists>nd. bone_at mdh_dict (node_indices ma) j = Inr nd \<and> node_name nd = b)
               then Some (sample_vector t (samples ma ! j))
               else None)"
    by blast
  define d where "d = \<lparr>checksum = man_checksum ma, frame_count = man_frame_count ma,
      fps = man_fps ma, fps_source = man_fps_source ma, layer = man_layer ma,
      source_script = [], frames = fr'\<rparr>"
  have pd: "parse_man ma mdh_dict = Inr (Some d)"
    using assms(1) r by (simp add: parse_man_def d_def)
  have fd: "frames d = fr'" by (simp add: d_def)
  have c1: "\<exists>nd tr ro.
                    bone_at mdh_dict (node_indices ma) i = Inr nd \<and>
                    lookup_entry (frames d) (node_name nd) Translation i = Some tr \<and>
                    list_all2 rounded_4
                      [vx (smp_position (samples ma ! i)),
                       vy (smp_position (samples ma ! i)),
                       vz (smp_position (samples ma ! i))] tr \<and>
                    lookup_entry (frames d) (node_name nd) Rotation i = Some ro \<and>
                    list_all2 rounded_4
                      [qx (smp_rotation (samples ma ! i)),
                       qy (smp_rotation (samples ma ! i)),
                       qz (smp_rotation (samples ma ! i)),
                       qw (smp_rotation (samples ma ! i))] ro"
    if i: "i < length (samples ma)" for i
  proof -
    from True i obtain nd where nd: "bone_at mdh_dict (node_indices ma) i = Inr nd" by blast
    have lk: "lookup_entry (frames d) (node_name nd) t i = Some (sample_vector t (samples ma ! i))"
      for t
      unfolding fd using i nd by (simp add: l)
    show ?thesis
      using nd lk [of Translation] lk [of Rotation] sample_vector_rounded [of "samples ma ! i"]
      by blast
  qed
  have c2: "j < length (samples ma) \<and>
            (\<exists>nd. bone_at mdh_dict (node_indices ma) j = Inr nd \<and> node_name nd = b)"
    if "lookup_entry (frames d) b t j = Some v" for b t j v
    using that unfolding fd l by (simp split: if_splits)
  from pd c1 c2 have "\<exists>d. parse_man ma mdh_dict = Inr (Some d) \<and>
                (\<forall>i < length (samples ma). \<exists>nd tr ro.
                    bone_at mdh_dict (node_indices ma) i = Inr nd \<and>
                    lookup_entry (frames d) (node_name nd) Translation i = Some tr \<and>
                    list_all2 rounded_4
                      [vx (smp_position (samples ma ! i)),
                       vy (smp_position (samples ma ! i)),
                       vz (smp_position (samples ma ! i))] tr \<and>
                    lookup_entry (frames d) (node_name nd) Rotation i = Some ro \<and>
                    list_all2 rounded_4
                      [qx (smp_rotation (samples ma ! i)),
                       qy (smp_rotation (samples ma ! i)),
                       qz (smp_rotation (samples ma ! i)),
                       qw (smp_rotation (samples ma ! i))] ro) \<and>
                (\<forall>b t j v. lookup_entry (frames d) b t j = Some v \<longrightarrow>
                    j < length (samples ma) \<and>
                    (\<exists>nd. bone_at mdh_dict (node_indices ma) j = Inr nd \<and> node_name nd = b))"
    by blast
  with True show ?thesis by simp
next
  case False
  then have a4: "\<exists>j. 0 \<le> j \<and> j < 0 + length (samples ma) \<and>
                   (\<forall>nd. bone_at mdh_dict (node_indices ma) j \<noteq> Inr nd)" by auto
  have "parse_samples mdh_dict (node_indices ma) 0 0 (samples ma) [] = Inl IndexError"
    by (rule parse_samples_fail [OF assms(2) _ _ a4]) simp_all
  then have "parse_man ma mdh_dict = Inl IndexError"
    using assms(1) by (simp add: parse_man_def)
  with False show ?thesis by simp
qed

theorem parse_man_decodes_witness:
  "man_checksum clip_r = mdh_checksum skel \<and> node_indices clip_r \<noteq> [] \<and>
   (\<exists>d. parse_man clip_r skel = Inr (Some d) \<and>
        lookup_entry (frames d) ''A'' Translation 0 = Some [1234 / 10000, 10001 / 10000, - 5 / 2] \<and>
        lookup_entry (frames d) ''A'' Rotation 0 = Some [0, 0, 7071 / 10000, - 7071 / 10000] \<and>
        lookup_entry (frames d) ''B'' Translation 1 = Some [4, 5, 6] \<and>
        lookup_entry (frames d) ''A'' Translation 2 = Some [3333 / 10000, 6667 / 10000, 9] \<and>
        lookup_entry (frames d) ''A'' Translation 1 = None)"
proof -
  have h1: "man_checksum clip_r = mdh_checksum skel" by (simp add: clip_r_def stream_def skel_def)
  have h2: "node_indices clip_r \<noteq> []" by (simp add: clip_r_def stream_def)
  have b0: "bone_at skel (node_indices clip_r) 0 = Inr \<lparr>node_name = ''A''\<rparr>"
    and b1: "bone_at skel (node_indices clip_r) 1 = Inr \<lparr>node_name = ''B''\<rparr>"
    and b2: "bone_at skel (node_indices clip_r) 2 = Inr \<lparr>node_name = ''A''\<rparr>"
    by (simp_all add: bone_at_def py_index_def clip_r_def stream_def skel_def numeral_2_eq_2)
  have len: "length (samples clip_r) = 3" by (simp add: clip_r_def stream_def)
  have all: "\<forall>i < length (samples clip_r). \<exists>nd. bone_at skel (node_indices clip_r) i = Inr nd"
    unfolding len using b0 b1 b2 [unfolded numeral_2_eq_2]
    by (auto simp: less_Suc_eq numeral_3_eq_3)
  from parse_man_decodes [OF h1 h2, THEN conjunct1, THEN mp, OF all] obtain d where
    d: "parse_man clip_r skel = Inr (Some d)"
    and e: "\<And>i. i < length (samples clip_r) \<Longrightarrow> \<exists>nd tr ro.
                    bone_at skel (node_indices clip_r) i = Inr nd \<and>
                    lookup_entry (frames d) (node_name nd) Translation i = Some tr \<and>
                    list_all2 rounded_4
                      [vx (smp_position (samples clip_r ! i)),
                       vy (smp_position (samples clip_r ! i)),
                       vz (smp_position (samples clip_r ! i))] tr \<and>
                    lookup_entry (frames d) (node_name nd) Rotation i = Some ro \<and>
                    list_all2 rounded_4
                      [qx (smp_rotation (samples clip_r ! i)),
                       qy (smp_rotation (samples clip_r ! i)),
                       qz (smp_rotation (samples clip_r ! i)),
                       qw (smp_rotation (samples clip_r ! i))] ro"
    and k: "\<And>b t j v. lookup_entry (frames d) b t j = Some v \<Longrightarrow>
                    j < length (samples clip_r) \<and>
                    (\<exists>nd. bone_at skel (node_indices clip_r) j = Inr nd \<and> node_name nd = b)"
    by blast
  have s0: "samples clip_r ! 0 =
      full_sample (12344 / 100000) (100006 / 100000) (- 5 / 2) 0 0 (70711 / 100000) (- 70711 / 100000)"
    and s1: "samples clip_r ! 1 = pos_sample 4 5 6"
    and s2: "samples clip_r ! 2 = pos_sample (1 / 3) (2 / 3) 9"
    by (simp_all add: clip_r_def stream_def numeral_2_eq_2)
  from e [of 0] b0 obtain tr0 ro0 where
    t0: "lookup_entry (frames d) ''A'' Translation 0 = Some tr0"
      "list_all2 rounded_4 [12344 / 100000, 100006 / 100000, - 5 / 2] tr0"
    and r0: "lookup_entry (frames d) ''A'' Rotation 0 = Some ro0"
      "list_all2 rounded_4 [0, 0, 70711 / 100000, - 70711 / 100000] ro0"
    unfolding len s0 by (auto simp: full_sample_def)
  from t0(2) obtain a b c where tr0: "tr0 = [a, b, c]"
    "rounded_4 (12344 / 100000) a" "rounded_4 (100006 / 100000) b" "rounded_4 (- 5 / 2) c"
    by (auto simp: list_all2_Cons1)
  have "a = of_int 1234 / 10 ^ 4" by (rule rounded_4_unique [OF tr0(2)]) simp_all
  moreover have "b = of_int 10001 / 10 ^ 4" by (rule rounded_4_unique [OF tr0(3)]) simp_all
  moreover have "c = of_int (- 25000) / 10 ^ 4" by (rule rounded_4_unique [OF tr0(4)]) simp_all
  ultimately have e0: "lookup_entry (frames d) ''A'' Translation 0 =
      Some [1234 / 10000, 10001 / 10000, - 5 / 2]"
    using t0(1) tr0(1) by simp
  from r0(2) obtain x y z w where ro0: "ro0 = [x, y, z, w]"
    "rounded_4 0 x" "rounded_4 0 y" "rounded_4 (70711 / 100000) z" "rounded_4 (- 70711 / 100000) w"
    by (auto simp: list_all2_Cons1)
  have "x = of_int 0 / 10 ^ 4" by (rule rounded_4_unique [OF ro0(2)]) simp_all
  moreover have "y = of_int 0 / 10 ^ 4" by (rule rounded_4_unique [OF ro0(3)]) simp_all
  moreover have "z = of_int 7071 / 10 ^ 4" by (rule rounded_4_unique [OF ro0(4)]) simp_all
  moreover have "w = of_int (- 7071) / 10 ^ 4" by (rule rounded_4_unique [OF ro0(5)]) simp_all
  ultimately have e0r: "lookup_entry (frames d) ''A'' Rotation 0 =
      Some [0, 0, 7071 / 10000, - 7071 / 10000]"
    using r0(1) ro0(1) by simp
  from e [of 1] b1 obtain tr1 where
    t1: "lookup_entry (frames d) ''B'' Translation 1 = Some tr1"
      "list_all2 rounded_4 [4, 5, 6] tr1"
    unfolding len s1 by (auto simp: pos_sample_def)
  from t1(2) obtain a1 b1' c1 where tr1: "tr1 = [a1, b1', c1]"
    "rounded_4 4 a1" "rounded_4 5 b1'" "rounded_4 6 c1"
    by (auto simp: list_all2_Cons1)
  have "a1 = of_int 40000 / 10 ^ 4" by (rule rounded_4_unique [OF tr1(2)]) simp_all
  moreover have "b1' = of_int 50000 / 10 ^ 4" by (rule rounded_4_unique [OF tr1(3)]) simp_all
  moreover have "c1 = of_int 60000 / 10 ^ 4" by (rule rounded_4_unique [OF tr1(4)]) simp_all
  ultimately have e1: "lookup_entry (frames d) ''B'' Translation 1 = Some [4, 5, 6]"
    using t1(1) tr1(1) by simp
  from e [of 2] b2 obtain tr2 where
    t2: "lookup_entry (frames d) ''A'' Translation 2 = Some tr2"
      "list_all2 rounded_4 [1 / 3, 2 / 3, 9] tr2"
    unfolding len s2 by (auto simp: pos_sample_def)
  from t2(2) obtain a2 b2' c2 where tr2: "tr2 = [a2, b2', c2]"
    "rounded_4 (1 / 3) a2" "rounded_4 (2 / 3) b2'" "rounded_4 9 c2"
    by (auto simp: list_all2_Cons1)
  have "a2 = of_int 3333 / 10 ^ 4" by (rule rounded_4_unique [OF tr2(2)]) simp_all
  moreover have "b2' = of_int 6667 / 10 ^ 4" by (rule rounded_4_unique [OF tr2(3)]) simp_all
  moreover have "c2 = of_int 90000 / 10 ^ 4" by (rule rounded_4_unique [OF tr2(4)]) simp_all
  ultimately have e2: "lookup_entry (frames d) ''A'' Translation 2 =
      Some [3333 / 10000, 6667 / 10000, 9]"
    using t2(1) tr2(1) by simp
  have e3: "lookup_entry (frames d) ''A'' Translation 1 = None"
  proof (cases "lookup_entry (frames d) ''A'' Translation 1")
    case None
    then show ?thesis .
  next
    case (Some v)
    from k [OF this] b1 show ?thesis by simp
  qed
  from h1 h2 d e0 e0r e1 e2 e3 show ?thesis by blast
qed

section \<open>The track merger\<close>

lemma map_of_merge_values:
  "map_of (merge_values frame values tf) j =
     (if j = frame \<and> values \<noteq> [] then Some (last values) else map_of tf j)"
  unfolding merge_values_def
  by (induction "values" arbitrary: tf) (auto simp: update_conv')

lemma map_of_merge_track:
  assumes "distinct (map fst trackFrames)" "\<forall>k. map_of trackFrames k \<noteq> Some []"
  shows "map_of (merge_track trackFrames tf) j =
     (case map_of trackFrames j of Some vs \<Rightarrow> Some (last vs) | None \<Rightarrow> map_of tf j)"
  using assms
proof (induction trackFrames arbitrary: tf)
  case Nil
  then show ?case by (simp add: merge_track_def)
next
  case (Cons p ps)
  obtain f vs where p: "p = (f, vs)" by (cases p)
  have step: "merge_track (p # ps) tf = merge_track ps (merge_values f vs tf)"
    by (simp add: merge_track_def p)
  have d: "distinct (map fst ps)" and fn: "f \<notin> fst ` set ps"
    using Cons.prems(1) by (auto simp: p)
  have ne: "\<forall>k. map_of ps k \<noteq> Some []"
  proof
    fix k
    show "map_of ps k \<noteq> Some []"
    proof (cases "k = f")
      case True
      then show ?thesis using fn by (simp add: map_of_eq_None_iff [THEN iffD2])
    next
      case False
      then show ?thesis using Cons.prems(2) [rule_format, of k] by (simp add: p)
    qed
  qed
  have vne: "vs \<noteq> []" using Cons.prems(2) [rule_format, of f] by (simp add: p)
  have none: "map_of ps f = None" using fn by (simp add: map_of_eq_None_iff)
  show ?case
    unfolding step Cons.IH [OF d ne]
    using vne none by (auto simp: p map_of_merge_values split: option.splits)
qed

lemma lookup_merge_bone:
  assumes "wf_tracks tracks"
  shows "lookup_entry (merge_bone (b, tracks) mf) b' t j =
     (if b' = b then
        (case map_of (track_frames t tracks) j of
           Some vs \<Rightarrow> Some (last vs) | None \<Rightarrow> lookup_entry mf b t j)
      else lookup_entry mf b' t j)"
proof -
  have tr: "map_of (merge_track (translation tracks) tf) j =
     (case map_of (translation tracks) j of Some vs \<Rightarrow> Some (last vs) | None \<Rightarrow> map_of tf j)" for tf
    using assms by (intro map_of_merge_track) (auto simp: wf_tracks_def)
  have ro: "map_of (merge_track (rotation tracks) tf) j =
     (case map_of (rotation tracks) j of Some vs \<Rightarrow> Some (last vs) | None \<Rightarrow> map_of tf j)" for tf
    using assms by (intro map_of_merge_track) (auto simp: wf_tracks_def)
  show ?thesis
    unfolding merge_bone_def lookup_entry_def Let_def
    by (cases t; cases "map_of mf b")
       (auto simp: map_of_map_entry update_conv' track_frames_def tr ro split: option.splits)
qed

lemma lookup_fold_merge_bone:
  assumes "wf_frames frs"
  shows "lookup_entry (fold merge_bone frs mf) b t j =
     (case lookup_entry frs b t j of Some vs \<Rightarrow> Some (last vs) | None \<Rightarrow> lookup_entry mf b t j)"
  using assms
proof (induction frs arbitrary: mf)
  case Nil
  then show ?case by (simp add: lookup_entry_def)
next
  case (Cons p ps)
  obtain b0 tr0 where p: "p = (b0, tr0)" by (cases p)
  have d: "distinct (map fst ps)" and bn: "b0 \<notin> fst ` set ps"
    using Cons.prems by (auto simp: wf_frames_def p)
  have none: "map_of ps b0 = None" using bn by (simp add: map_of_eq_None_iff)
  have "map_of (p # ps) b0 = Some tr0" by (simp add: p)
  with Cons.prems have w0: "wf_tracks tr0" unfolding wf_frames_def by blast
  have wps: "wf_frames ps"
    unfolding wf_frames_def
  proof (intro conjI allI impI)
    show "distinct (map fst ps)" by (rule d)
  next
    fix b' bt assume m: "map_of ps b' = Some bt"
    with none have "b' \<noteq> b0" by auto
    with m have "map_of (p # ps) b' = Some bt" by (simp add: p)
    with Cons.prems show "wf_tracks bt" unfolding wf_frames_def by blast
  qed
  have step: "fold merge_bone (p # ps) mf = fold merge_bone ps (merge_bone (b0, tr0) mf)"
    by (simp add: p)
  have hd: "lookup_entry (p # ps) b t j =
     (if b = b0 then map_of (track_frames t tr0) j else lookup_entry ps b t j)"
    by (simp add: lookup_entry_def p)
  have nops: "lookup_entry ps b0 t j = None"
    using none by (simp add: lookup_entry_def)
  show ?case
    unfolding step Cons.IH [OF wps] lookup_merge_bone [OF w0] hd
    using nops by (simp split: option.splits)
qed

lemma merge_loop_append:
  "merge_loop mdh_dict (xs @ ys) st =
     (case merge_loop mdh_dict xs st of Inl e \<Rightarrow> Inl e | Inr st' \<Rightarrow> merge_loop mdh_dict ys st')"
  by (induction xs arbitrary: st) (auto split: sum.splits option.splits)

lemma merge_loop_total:
  "\<forall>s \<in> set mas. \<exists>d. parse_man s mdh_dict = Inr (Some d) \<Longrightarrow>
   \<exists>st'. merge_loop mdh_dict mas st = Inr st'"
  by (induction mas arbitrary: st) auto

lemma merge_loop_single:
  "parse_man s mdh_dict = Inr (Some d) \<Longrightarrow>
   merge_loop mdh_dict [s] st = Inr (fold merge_bone (frames d) (fst st), Some d)"
  by simp

lemma merge_loop_untouched:
  "merge_loop mdh_dict mas st = Inr st' \<Longrightarrow>
   \<forall>s \<in> set mas. \<forall>d. parse_man s mdh_dict = Inr (Some d) \<longrightarrow> lookup_entry (frames d) b t j = None \<Longrightarrow>
   lookup_entry (fst st') b t j = lookup_entry (fst st) b t j"
proof (induction mas arbitrary: st)
  case Nil
  then show ?case by simp
next
  case (Cons s mas)
  from Cons.prems(1) obtain d where d: "parse_man s mdh_dict = Inr (Some d)"
    and r: "merge_loop mdh_dict mas (fold merge_bone (frames d) (fst st), Some d) = Inr st'"
    by (auto split: sum.splits option.splits)
  have "lookup_entry (frames d) b t j = None" using Cons.prems(2) d by simp
  then have "lookup_entry (fold merge_bone (frames d) (fst st)) b t j = lookup_entry (fst st) b t j"
    by (simp add: lookup_fold_merge_bone [OF parse_man_wf [OF d]])
  moreover have "lookup_entry (fst st') b t j =
      lookup_entry (fst (fold merge_bone (frames d) (fst st), Some d)) b t j"
    using Cons.IH [OF r] Cons.prems(2) by simp
  ultimately show ?case by simp
qed

lemma merge_loop_origin:
  "merge_loop mdh_dict mas st = Inr st' \<Longrightarrow> lookup_entry (fst st') b t j = Some v \<Longrightarrow>
   lookup_entry (fst st) b t j = Some v \<or>
   (\<exists>s \<in> set mas. \<exists>d vs. parse_man s mdh_dict = Inr (Some d) \<and>
        lookup_entry (frames d) b t j = Some vs \<and> v = last vs)"
proof (induction mas arbitrary: st)
  case Nil
  then show ?case by simp
next
  case (Cons s mas)
  from Cons.prems(1) obtain d where d: "parse_man s mdh_dict = Inr (Some d)"
    and r: "merge_loop mdh_dict mas (fold merge_bone (frames d) (fst st), Some d) = Inr st'"
    by (auto split: sum.splits option.splits)
  from Cons.IH [OF r Cons.prems(2)] show ?case
  proof
    assume a: "lookup_entry (fst (fold merge_bone (frames d) (fst st), Some d)) b t j = Some v"
    show ?thesis
    proof (cases "lookup_entry (frames d) b t j")
      case None
      with a show ?thesis by (simp add: lookup_fold_merge_bone [OF parse_man_wf [OF d]])
    next
      case (Some vs)
      with a have "v = last vs" by (simp add: lookup_fold_merge_bone [OF parse_man_wf [OF d]])
      with d Some show ?thesis by auto
    qed
  next
    assume "\<exists>s \<in> set mas. \<exists>d vs. parse_man s mdh_dict = Inr (Some d) \<and>
        lookup_entry (frames d) b t j = Some vs \<and> v = last vs"
    then show ?thesis by auto
  qed
qed

lemma merge_loop_man_data:
  "mas \<noteq> [] \<Longrightarrow> merge_loop mdh_dict mas st = Inr st' \<Longrightarrow>
   parse_man (last mas) mdh_dict = Inr (snd st') \<and> snd st' \<noteq> None"
proof (induction mas arbitrary: st)
  case Nil
  then show ?case by simp
next
  case (Cons s mas)
  from Cons.prems(2) obtain d where d: "parse_man s mdh_dict = Inr (Some d)"
    and r: "merge_loop mdh_dict mas (fold merge_bone (frames d) (fst st), Some d) = Inr st'"
    by (auto split: sum.splits option.splits)
  show ?case
  proof (cases mas)
    case Nil
    with d r show ?thesis by auto
  next
    case (Cons s' mas')
    then have "mas \<noteq> []" by simp
    from Cons.IH [OF this r] Cons show ?thesis by simp
  qed
qed

text \<open>
  The merge of one clip, in general: at every key the merged structure holds the last
  component of the decoded vector.
\<close>

lemma merged_entry_is_last_component:
  assumes "parse_man s mdh0 = Inr (Some d)"
  shows "\<exists>m. merge_anis mdh0 c ma [s] = Inr (m, Some d) \<and>
           (\<forall>b t j. lookup_entry (frames (animation m)) b t j =
                      map_option last (lookup_entry (frames d) b t j))"
proof -
  have "lookup_entry (fold merge_bone (frames d) []) b t j =
          map_option last (lookup_entry (frames d) b t j)" for b t j
    by (simp add: lookup_fold_merge_bone [OF parse_man_wf [OF assms]] lookup_entry_Nil
        split: option.splits)
  then show ?thesis
    using assms by (simp add: merge_anis_def)
qed

text \<open>
  What \<^verbatim>\<open>convert_anis\<close> writes, in general: when both checks pass and every stream
  decodes, the dictionary written is the decoding of the stream loaded last, and the
  call ends with the \<^verbatim>\<open>NameError\<close> of line 207.
\<close>

lemma convert_anis_writes_last_decode:
  assumes "length (remdups (map man_checksum (map load man_file_paths))) = 1"
    and "map_of idx (man_checksum (load (hd man_file_paths))) = Some mdh0"
    and "\<forall>p \<in> set man_file_paths. \<exists>d. parse_man (load p) mdh0 = Inr (Some d)"
  shows "\<exists>d. parse_man (load (last man_file_paths)) mdh0 = Inr (Some d) \<and>
           convert_anis load asc_name man_file_paths idx =
             ([Write_text (relative_to_extract_path (last man_file_paths) @ ''.json'') d,
               Print (''prepared: '' @ relative_to_extract_path (last man_file_paths))],
              Some NameError)"
proof -
  have ne: "man_file_paths \<noteq> []" using assms(1) by auto
  then obtain p ps where p: "man_file_paths = p # ps" by (cases man_file_paths) auto
  have ok: "\<forall>s \<in> set (map load man_file_paths). \<exists>d. parse_man s mdh0 = Inr (Some d)"
    using assms(3) by auto
  obtain st where st: "merge_loop mdh0 (map load man_file_paths) ([], None) = Inr st"
    using merge_loop_total [OF ok] by blast
  have mne: "map load man_file_paths \<noteq> []" using ne by simp
  from merge_loop_man_data [OF mne st]
  have "parse_man (last (map load man_file_paths)) mdh0 = Inr (snd st)" "snd st \<noteq> None"
    by auto
  then obtain d where d: "snd st = Some d" "parse_man (load (last man_file_paths)) mdh0 = Inr (Some d)"
    using ne by (auto simp: last_map)
  have l1: "length (remdups (map (man_checksum \<circ> load) (p # ps))) = 1"
    using assms(1) p by simp
  have "convert_anis load asc_name man_file_paths idx =
             ([Write_text (relative_to_extract_path (last man_file_paths) @ ''.json'') d,
               Print (''prepared: '' @ relative_to_extract_path (last man_file_paths))],
              Some NameError)"
    using assms(2) st d(1) l1 unfolding p
    by (simp add: convert_anis_def merge_anis_def Let_def del: remdups.simps)
  with d(2) show ?thesis by blast
qed

lemma parse_clip_a:
  "parse_man clip_a skel = Inr (Some \<lparr>checksum = 7, frame_count = 1, fps = 25, fps_source = 25,
      layer = 1, source_script = [],
      frames = [(''A'', \<lparr>translation = [(0, [rf 1, rf 2, rf 3])],
                         rotation = [(0, [rf 0, rf 0, rf 0, rf 1])]\<rparr>)]\<rparr>)"
  by (simp add: parse_man_def clip_a_def stream_def skel_def pos_sample_def py_index_def
      store_sample_def)

lemma parse_clip_b:
  "parse_man clip_b skel = Inr (Some \<lparr>checksum = 7, frame_count = 2, fps = 25, fps_source = 25,
      layer = 1, source_script = [],
      frames = [(''B'', \<lparr>translation = [(0, [rf 4, rf 5, rf 6])],
                         rotation = [(0, [rf 0, rf 0, rf 0, rf 1])]\<rparr>)]\<rparr>)"
  by (simp add: parse_man_def clip_b_def stream_def skel_def pos_sample_def py_index_def
      store_sample_def)

lemma parse_clip_c:
  "parse_man clip_c skel = Inr (Some \<lparr>checksum = 7, frame_count = 3, fps = 25, fps_source = 25,
      layer = 1, source_script = [],
      frames = [(''A'', \<lparr>translation = [(0, [rf 7, rf 8, rf 9])],
                         rotation = [(0, [rf 0, rf 0, rf 0, rf 1])]\<rparr>)]\<rparr>)"
  by (simp add: parse_man_def clip_c_def stream_def skel_def pos_sample_def py_index_def
      store_sample_def)

lemma parse_clip_d:
  "parse_man clip_d skel = Inr (Some \<lparr>checksum = 7, frame_count = 3, fps = 25, fps_source = 25,
      layer = 1, source_script = [],
      frames = [(''A'', \<lparr>translation = [(0, [rf 0, rf 0, rf 9])],
                         rotation = [(0, [rf 0, rf 0, rf 0, rf 1])]\<rparr>)]\<rparr>)"
  by (simp add: parse_man_def clip_d_def stream_def skel_def pos_sample_def py_index_def
      store_sample_def)

lemma mdh_by_checksum_skel: "mdh_by_checksum [skel] = [(7, skel)]"
  by (simp add: mdh_by_checksum_def skel_def)

text \<open>
  Claim C1. A single clip \<open>clip_a\<close> with one sample at position \<open>(1, 2, 3)\<close> on the
  skeleton \<open>skel\<close>: the decoder stores the vector \<open>[1, 2, 3]\<close> at key 0, the merged
  structure holds the number 3 there, the last component, since the loop
  \<^verbatim>\<open>for v in values\<close> assigns every component to the same key. The header fields of
  the merged structure are those of the clip.
\<close>

theorem single_clip_merge_keeps_last_component:
  "\<exists>d m. parse_man clip_a skel = Inr (Some d) \<and>
     merge_anis skel (man_checksum clip_a) clip_a [clip_a] = Inr (m, Some d) \<and>
     lookup_entry (frames d) ''A'' Translation 0 = Some [rf 1, rf 2, rf 3] \<and>
     lookup_entry (frames (animation m)) ''A'' Translation 0 = Some (rf 3) \<and>
     lookup_entry (frames d) ''A'' Rotation 0 = Some [rf 0, rf 0, rf 0, rf 1] \<and>
     lookup_entry (frames (animation m)) ''A'' Rotation 0 = Some (rf 1) \<and>
     rf 3 = 3 \<and>
     checksum (animation m) = man_checksum clip_a \<and>
     frame_count (animation m) = man_frame_count clip_a \<and>
     fps (animation m) = man_fps clip_a \<and>
     fps_source (animation m) = man_fps_source clip_a \<and>
     layer (animation m) = man_layer clip_a"
  by (simp add: merge_anis_def parse_clip_a lookup_entry_def track_frames_def
      merge_bone_def merge_track_def merge_values_def rf_def py_round_def)

text \<open>
  Claim C2. Two clips of one source track on the skeleton \<open>skel\<close>, the first on bone
  \<open>A\<close>, the second on bone \<open>B\<close>: the dictionary given to \<^verbatim>\<open>json.dumps\<close> and written is
  \<^verbatim>\<open>man_data\<close>, the decoding of the second clip alone. It has no entry for bone \<open>A\<close>,
  which the merged structure has, and it is not paired with the hierarchy. The call
  then ends with the \<^verbatim>\<open>NameError\<close> of line 207.
\<close>

theorem written_document_is_last_decode:
  "\<exists>d m md.
     convert_anis load_sample ''T.ASC'' [man_path ''a'', man_path ''b''] (mdh_by_checksum [skel]) =
       ([Write_text ''ANIMS/b.MAN.json'' d, Print ''prepared: ANIMS/b.MAN''], Some NameError) \<and>
     parse_man clip_b skel = Inr (Some d) \<and>
     lookup_entry (frames d) ''A'' Translation 0 = None \<and>
     lookup_entry (frames d) ''B'' Translation 0 = Some [rf 4, rf 5, rf 6] \<and>
     merge_anis skel 7 clip_b [clip_a, clip_b] = Inr (m, md) \<and>
     lookup_entry (frames (animation m)) ''A'' Translation 0 = Some (rf 3) \<and>
     lookup_entry (frames (animation m)) ''B'' Translation 0 = Some (rf 6)"
proof -
  have cs: "man_checksum clip_a = 7" "man_checksum clip_b = 7"
    by (simp_all add: clip_a_def clip_b_def stream_def)
  have ld: "load_sample \<lparr>relative_to_extract_path = ''ANIMS/a.MAN'', stem = ''a''\<rparr> = clip_a"
    "load_sample \<lparr>relative_to_extract_path = ''ANIMS/b.MAN'', stem = ''b''\<rparr> = clip_b"
    by (simp_all add: load_sample_def)
  show ?thesis
    by (simp add: convert_anis_def merge_anis_def ld cs mdh_by_checksum_skel
        parse_clip_a parse_clip_b lookup_entry_def track_frames_def
        merge_bone_def merge_track_def merge_values_def man_path_def)
qed

text \<open>
  The order of the fold, in general. When a clip decodes to an entry at a key (bone,
  track, flat sample index) and no clip after it has an entry at that key, the merged
  structure holds at that key what the merge of this clip alone holds there, whatever
  the clips before it hold at the key. Every key of the merged structure is a key of
  some clip's decoding, unchanged: no key is shifted by a first frame, which the
  merge does not read.
\<close>

lemma later_clip_write_wins:
  assumes "\<forall>s \<in> set (pre @ s2 # post). \<exists>d. parse_man s mdh0 = Inr (Some d)"
    and "parse_man s2 mdh0 = Inr (Some d2)"
    and "lookup_entry (frames d2) b t j = Some vs"
    and "\<forall>s \<in> set post. \<forall>d. parse_man s mdh0 = Inr (Some d) \<longrightarrow> lookup_entry (frames d) b t j = None"
  shows "\<exists>m md. merge_anis mdh0 c ma (pre @ s2 # post) = Inr (m, md) \<and>
           lookup_entry (frames (animation m)) b t j = Some (last vs) \<and>
           (\<exists>m2 md2. merge_anis mdh0 c ma [s2] = Inr (m2, md2) \<and>
              lookup_entry (frames (animation m2)) b t j = Some (last vs)) \<and>
           (\<forall>b' t' j' v. lookup_entry (frames (animation m)) b' t' j' = Some v \<longrightarrow>
              (\<exists>s \<in> set (pre @ s2 # post). \<exists>d vs'. parse_man s mdh0 = Inr (Some d) \<and>
                  lookup_entry (frames d) b' t' j' = Some vs' \<and> v = last vs'))"
proof -
  have pre_ok: "\<forall>s \<in> set pre. \<exists>d. parse_man s mdh0 = Inr (Some d)"
    and post_ok: "\<forall>s \<in> set post. \<exists>d. parse_man s mdh0 = Inr (Some d)"
    using assms(1) by auto
  obtain st1 where st1: "merge_loop mdh0 pre ([], None) = Inr st1"
    using merge_loop_total [OF pre_ok] by blast
  define st2 where "st2 = (fold merge_bone (frames d2) (fst st1), Some d2)"
  have s2: "merge_loop mdh0 [s2] st1 = Inr st2"
    unfolding st2_def by (rule merge_loop_single [OF assms(2)])
  obtain st3 where st3: "merge_loop mdh0 post st2 = Inr st3"
    using merge_loop_total [OF post_ok] by blast
  have whole: "merge_loop mdh0 (pre @ s2 # post) ([], None) = Inr st3"
    using st1 s2 st3 merge_loop_append [of mdh0 pre "s2 # post" "([], None)"]
      merge_loop_append [of mdh0 "[s2]" post st1] by simp
  have l2: "lookup_entry (fst st2) b t j = Some (last vs)"
    unfolding st2_def using assms(3)
    by (simp add: lookup_fold_merge_bone [OF parse_man_wf [OF assms(2)]])
  have l3: "lookup_entry (fst st3) b t j = Some (last vs)"
    using merge_loop_untouched [OF st3 assms(4)] l2 by simp
  have alone: "merge_loop mdh0 [s2] ([], None) = Inr (fold merge_bone (frames d2) [], Some d2)"
    using merge_loop_single [OF assms(2), of "([], None)"] by simp
  have la: "lookup_entry (fold merge_bone (frames d2) []) b t j = Some (last vs)"
    using assms(3) by (simp add: lookup_fold_merge_bone [OF parse_man_wf [OF assms(2)]])
  have origin: "\<exists>s \<in> set (pre @ s2 # post). \<exists>d vs'. parse_man s mdh0 = Inr (Some d) \<and>
                  lookup_entry (frames d) b' t' j' = Some vs' \<and> v = last vs'"
    if "lookup_entry (fst st3) b' t' j' = Some v" for b' t' j' v
    using merge_loop_origin [OF whole that] by (simp add: lookup_entry_Nil)
  show ?thesis
    unfolding merge_anis_def whole alone using l3 la origin by simp
qed

text \<open>
  Claim C3. Two clips that both decode to an entry at the key (\<open>A\<close>, translation, 0),
  \<open>clip_a\<close> folded first and \<open>clip_c\<close> folded second: the key keeps its place, and the
  second clip's write is the one that stays, but what stays is the number 9, the last
  component of the second clip's entry \<open>[7, 8, 9]\<close>, not that entry. With \<open>clip_d\<close>,
  whose entry is \<open>[0, 0, 9]\<close>, in the place of \<open>clip_c\<close> the merged structure is the same.
  It is the loop \<^verbatim>\<open>for v in values\<close> of lines 196 to 198 again (see C1).
\<close>

theorem collision_keeps_last_component:
  "\<exists>da dc dd m m'.
     parse_man clip_a skel = Inr (Some da) \<and>
     parse_man clip_c skel = Inr (Some dc) \<and>
     parse_man clip_d skel = Inr (Some dd) \<and>
     lookup_entry (frames da) ''A'' Translation 0 = Some [1, 2, 3] \<and>
     lookup_entry (frames dc) ''A'' Translation 0 = Some [7, 8, 9] \<and>
     lookup_entry (frames dd) ''A'' Translation 0 = Some [0, 0, 9] \<and>
     merge_anis skel 7 clip_c [clip_a, clip_c] = Inr (m, Some dc) \<and>
     merge_anis skel 7 clip_d [clip_a, clip_d] = Inr (m', Some dd) \<and>
     lookup_entry (frames (animation m)) ''A'' Translation 0 = Some 9 \<and>
     lookup_entry (frames (animation m')) ''A'' Translation 0 = Some 9 \<and>
     frames (animation m) = frames (animation m')"
  by (simp add: merge_anis_def parse_clip_a parse_clip_c parse_clip_d lookup_entry_def
      track_frames_def merge_bone_def merge_track_def merge_values_def rf_def py_round_def)

section \<open>Failures stay inside a source track\<close>

lemma length_remdups_image:
  "length (remdups (map (f \<circ> g) xs)) = card (f ` g ` set xs)"
  by (simp add: length_remdups_card_conv image_comp)

text \<open>
  Claim C9. When the streams loaded for a source track do not have exactly one
  checksum, or their one checksum is not a key of the hierarchy index,
  \<^verbatim>\<open>convert_anis\<close> returns normally having only printed one message: it raises nothing
  and writes nothing. The loop of \<^verbatim>\<open>convert\<close> then goes on with the remaining source
  tracks exactly as it would without this one.
\<close>

theorem abort_stays_in_track:
  assumes "man_files = filter (\<lambda>path. stem path \<in> set (map ani_name anis)) man_file_path_list"
    and "card (man_checksum ` load ` set man_files) \<noteq> 1 \<or>
         (\<exists>c. man_checksum ` load ` set man_files = {c} \<and> map_of idx c = None)"
  shows "\<exists>msg. convert_anis load asc_name man_files idx = ([Print msg], None) \<and>
           convert_loop load man_file_path_list idx ((asc_name, anis) # items) =
             (Print msg # fst (convert_loop load man_file_path_list idx items),
              snd (convert_loop load man_file_path_list idx items))"
proof -
  have "\<exists>msg. convert_anis load asc_name man_files idx = ([Print msg], None)"
  proof (cases "card (man_checksum ` load ` set man_files) \<noteq> 1")
    case True
    then show ?thesis
      by (simp add: convert_anis_def Let_def length_remdups_image)
  next
    case False
    with assms(2) obtain c where c: "man_checksum ` load ` set man_files = {c}"
      "map_of idx c = None" by blast
    from c(1) have ne: "man_files \<noteq> []" by auto
    then obtain p ps where p: "man_files = p # ps" by (cases man_files) auto
    then have "man_checksum (load p) \<in> man_checksum ` load ` set man_files" by simp
    with c have "map_of idx (man_checksum (load p)) = None" by simp
    with False p show ?thesis
      by (simp add: convert_anis_def Let_def length_remdups_image del: remdups.simps)
  qed
  then obtain msg where m: "convert_anis load asc_name man_files idx = ([Print msg], None)"
    by blast
  then have "convert_loop load man_file_path_list idx ((asc_name, anis) # items) =
             (Print msg # fst (convert_loop load man_file_path_list idx items),
              snd (convert_loop load man_file_path_list idx items))"
    using assms(1) by (simp add: Let_def)
  with m show ?thesis by blast
qed

theorem abort_stays_in_track_witness:
  "convert_anis load_sample ''X.ASC'' [man_path ''a'', man_path ''x''] (mdh_by_checksum [skel]) =
     ([Print ''ASC: X.ASC, ani checksums are different. ABORT''], None) \<and>
   convert_anis load_sample ''Y.ASC'' [man_path ''x''] (mdh_by_checksum [skel]) =
     ([Print ''ASC: Y.ASC, could not find correct MDH. ABORT''], None) \<and>
   (\<exists>d. parse_man clip_b skel = Inr (Some d) \<and>
     convert_loop load_sample [man_path ''a'', man_path ''b'', man_path ''x''] (mdh_by_checksum [skel])
       [(''T.ASC'', [clip ''b'' 0 9 25])] =
     ([Write_text ''ANIMS/b.MAN.json'' d, Print ''prepared: ANIMS/b.MAN''], Some NameError) \<and>
     convert_loop load_sample [man_path ''a'', man_path ''b'', man_path ''x''] (mdh_by_checksum [skel])
       [(''X.ASC'', [clip ''a'' 0 9 25, clip ''x'' 10 19 25]), (''Y.ASC'', [clip ''x'' 10 19 25]),
        (''T.ASC'', [clip ''b'' 0 9 25])] =
     ([Print ''ASC: X.ASC, ani checksums are different. ABORT'',
       Print ''ASC: Y.ASC, could not find correct MDH. ABORT'',
       Write_text ''ANIMS/b.MAN.json'' d, Print ''prepared: ANIMS/b.MAN''], Some NameError))"
proof -
  let ?paths = "[man_path ''a'', man_path ''b'', man_path ''x'']"
  let ?idx = "mdh_by_checksum [skel]"
  let ?xs = "[clip ''a'' 0 9 25, clip ''x'' 10 19 25]"
  let ?ys = "[clip ''x'' 10 19 25]"
  let ?T = "[(''T.ASC'', [clip ''b'' 0 9 25])]"
  have ld: "load_sample \<lparr>relative_to_extract_path = ''ANIMS/a.MAN'', stem = ''a''\<rparr> = clip_a"
    "load_sample \<lparr>relative_to_extract_path = ''ANIMS/b.MAN'', stem = ''b''\<rparr> = clip_b"
    "load_sample \<lparr>relative_to_extract_path = ''ANIMS/x.MAN'', stem = ''x''\<rparr> = clip_x"
    by (simp_all add: load_sample_def)
  have cs: "man_checksum clip_a = 7" "man_checksum clip_b = 7" "man_checksum clip_x = 8"
    by (simp_all add: clip_a_def clip_b_def clip_x_def stream_def)
  have x1: "[man_path ''a'', man_path ''x''] =
            filter (\<lambda>path. stem path \<in> set (map ani_name ?xs)) ?paths"
    by (simp add: man_path_def clip_def)
  have "man_checksum ` load_sample ` set [man_path ''a'', man_path ''x''] = {7, 8}"
    by (simp add: man_path_def ld cs)
  then have x2: "card (man_checksum ` load_sample ` set [man_path ''a'', man_path ''x'']) \<noteq> 1 \<or>
         (\<exists>c. man_checksum ` load_sample ` set [man_path ''a'', man_path ''x''] = {c} \<and>
              map_of ?idx c = None)"
    by simp
  have y1: "[man_path ''x''] = filter (\<lambda>path. stem path \<in> set (map ani_name ?ys)) ?paths"
    by (simp add: man_path_def clip_def)
  have "man_checksum ` load_sample ` set [man_path ''x''] = {8} \<and> map_of ?idx 8 = None"
    by (simp add: man_path_def ld cs mdh_by_checksum_skel)
  then have y2: "card (man_checksum ` load_sample ` set [man_path ''x'']) \<noteq> 1 \<or>
         (\<exists>c. man_checksum ` load_sample ` set [man_path ''x''] = {c} \<and> map_of ?idx c = None)"
    by blast
  from abort_stays_in_track [OF x1 x2, of "''X.ASC''" "(''Y.ASC'', ?ys) # ?T"] obtain mx where
    mx: "convert_anis load_sample ''X.ASC'' [man_path ''a'', man_path ''x''] ?idx = ([Print mx], None)"
    and lx: "convert_loop load_sample ?paths ?idx ((''X.ASC'', ?xs) # (''Y.ASC'', ?ys) # ?T) =
             (Print mx # fst (convert_loop load_sample ?paths ?idx ((''Y.ASC'', ?ys) # ?T)),
              snd (convert_loop load_sample ?paths ?idx ((''Y.ASC'', ?ys) # ?T)))"
    by blast
  from abort_stays_in_track [OF y1 y2, of "''Y.ASC''" ?T] obtain my where
    my: "convert_anis load_sample ''Y.ASC'' [man_path ''x''] ?idx = ([Print my], None)"
    and ly: "convert_loop load_sample ?paths ?idx ((''Y.ASC'', ?ys) # ?T) =
             (Print my # fst (convert_loop load_sample ?paths ?idx ?T),
              snd (convert_loop load_sample ?paths ?idx ?T))"
    by blast
  have ex: "convert_anis load_sample ''X.ASC'' [man_path ''a'', man_path ''x''] ?idx =
      ([Print ''ASC: X.ASC, ani checksums are different. ABORT''], None)"
    by (simp add: convert_anis_def man_path_def ld cs)
  have ey: "convert_anis load_sample ''Y.ASC'' [man_path ''x''] ?idx =
      ([Print ''ASC: Y.ASC, could not find correct MDH. ABORT''], None)"
    by (simp add: convert_anis_def man_path_def ld cs mdh_by_checksum_skel)
  from mx ex have mxv: "mx = ''ASC: X.ASC, ani checksums are different. ABORT''" by simp
  from my ey have myv: "my = ''ASC: Y.ASC, could not find correct MDH. ABORT''" by simp
  have "\<exists>d. parse_man clip_b skel = Inr (Some d) \<and>
     convert_loop load_sample ?paths ?idx ?T =
     ([Write_text ''ANIMS/b.MAN.json'' d, Print ''prepared: ANIMS/b.MAN''], Some NameError)"
    by (simp add: convert_anis_def merge_anis_def man_path_def clip_def ld cs
        mdh_by_checksum_skel parse_clip_b)
  then obtain d where d: "parse_man clip_b skel = Inr (Some d)"
    "convert_loop load_sample ?paths ?idx ?T =
     ([Write_text ''ANIMS/b.MAN.json'' d, Print ''prepared: ANIMS/b.MAN''], Some NameError)"
    by blast
  have "convert_loop load_sample ?paths ?idx ((''X.ASC'', ?xs) # (''Y.ASC'', ?ys) # ?T) =
     ([Print ''ASC: X.ASC, ani checksums are different. ABORT'',
       Print ''ASC: Y.ASC, could not find correct MDH. ABORT'',
       Write_text ''ANIMS/b.MAN.json'' d, Print ''prepared: ANIMS/b.MAN''], Some NameError)"
    unfolding lx ly d(2) mxv myv by simp
  with ex ey d show ?thesis by blast
qed

lemma mdh_by_checksum_sound_aux:
  "(\<forall>c d. map_of m c = Some d \<longrightarrow> mdh_checksum d = c) \<Longrightarrow>
   map_of (fold (\<lambda>d m. AList.update (mdh_checksum d) d m) ds m) c = Some d \<Longrightarrow>
   mdh_checksum d = c"
proof (induction ds arbitrary: m)
  case Nil
  then show ?case by simp
next
  case (Cons x ds)
  have "\<forall>c d. map_of (AList.update (mdh_checksum x) x m) c = Some d \<longrightarrow> mdh_checksum d = c"
    using Cons.prems(1) by (auto simp: update_conv')
  from Cons.IH [OF this] Cons.prems(2) show ?case by simp
qed

lemma mdh_by_checksum_sound:
  "map_of (mdh_by_checksum ds) c = Some d \<Longrightarrow> mdh_checksum d = c"
  unfolding mdh_by_checksum_def by (rule mdh_by_checksum_sound_aux [of "[]"]) simp_all

lemma remdups_one_hd:
  assumes "length (remdups xs) = 1" "x \<in> set xs"
  shows "x = hd xs"
proof -
  have "card (set xs) = 1" using assms(1) by (simp add: length_remdups_card_conv)
  then obtain a where a: "set xs = {a}" by (rule card_1_singletonE)
  then have "xs \<noteq> []" by auto
  then have "hd xs \<in> set xs" by simp
  with a assms(2) show ?thesis by simp
qed

lemma merge_loop_no_TypeError:
  "\<forall>s \<in> set mas. man_checksum s = mdh_checksum mdh_dict \<Longrightarrow>
   merge_loop mdh_dict mas st \<noteq> Inl TypeError"
proof (induction mas arbitrary: st)
  case Nil
  then show ?case by simp
next
  case (Cons s mas)
  show ?case
  proof (cases "parse_man s mdh_dict")
    case (Inl e)
    then have "e = IndexError" by (rule parse_man_error)
    with Inl show ?thesis by simp
  next
    case (Inr r)
    have "r \<noteq> None" using Inr Cons.prems parse_man_None_iff [of s mdh_dict] by auto
    then obtain d where "r = Some d" by auto
    with Inr Cons show ?thesis by simp
  qed
qed

text \<open>
  Claim C10. With the index built by \<^verbatim>\<open>convert\<close>, every record stands under its own
  checksum. So when the loaded streams have one checksum and the index has it,
  \<^verbatim>\<open>parse_man\<close> returns \<^verbatim>\<open>None\<close> for none of them, and neither the merge loop nor
  \<^verbatim>\<open>convert_anis\<close> raises the \<^verbatim>\<open>TypeError\<close> of reading \<^verbatim>\<open>man_data['frames']\<close> of a
  \<^verbatim>\<open>None\<close>.
\<close>

theorem validated_merge_never_sees_None:
  assumes "length (remdups (map man_checksum (map load man_file_paths))) = 1"
    and "map_of (mdh_by_checksum mdh_dicts) (man_checksum (load (hd man_file_paths))) = Some mdh0"
  shows "(\<forall>p \<in> set man_file_paths. parse_man (load p) mdh0 \<noteq> Inr None) \<and>
         merge_loop mdh0 (map load man_file_paths) st \<noteq> Inl TypeError \<and>
         snd (convert_anis load asc_name man_file_paths (mdh_by_checksum mdh_dicts)) \<noteq> Some TypeError"
proof -
  have ne: "man_file_paths \<noteq> []" using assms(1) by auto
  then have hd_eq: "hd (map (man_checksum \<circ> load) man_file_paths) = man_checksum (load (hd man_file_paths))"
    by (simp add: hd_map)
  have k: "mdh_checksum mdh0 = man_checksum (load (hd man_file_paths))"
    using mdh_by_checksum_sound [OF assms(2)] .
  have same: "man_checksum (load p) = mdh_checksum mdh0" if "p \<in> set man_file_paths" for p
  proof -
    from that have "man_checksum (load p) \<in> set (map (man_checksum \<circ> load) man_file_paths)"
      by auto
    moreover have "length (remdups (map (man_checksum \<circ> load) man_file_paths)) = 1"
      using assms(1) by simp
    ultimately have "man_checksum (load p) = hd (map (man_checksum \<circ> load) man_file_paths)"
      by (intro remdups_one_hd)
    then show ?thesis by (simp only: hd_eq k)
  qed
  have c1: "\<forall>p \<in> set man_file_paths. parse_man (load p) mdh0 \<noteq> Inr None"
    using same by (simp add: parse_man_None_iff)
  have c2: "merge_loop mdh0 (map load man_file_paths) st \<noteq> Inl TypeError" for st
    by (rule merge_loop_no_TypeError) (use same in auto)
  obtain p ps where p: "man_file_paths = p # ps" using ne by (cases man_file_paths) auto
  have c3: "snd (convert_anis load asc_name man_file_paths (mdh_by_checksum mdh_dicts)) \<noteq> Some TypeError"
  proof (cases "merge_loop mdh0 (map load man_file_paths) ([], None)")
    case (Inl e)
    with c2 [of "([], None)"] have "e \<noteq> TypeError" by auto
    with Inl assms p show ?thesis
      by (simp add: convert_anis_def merge_anis_def Let_def del: remdups.simps)
  next
    case (Inr st')
    with assms p show ?thesis
      by (simp add: convert_anis_def merge_anis_def Let_def del: remdups.simps split: option.splits)
  qed
  from c1 c2 c3 show ?thesis by blast
qed

theorem validated_merge_never_sees_None_witness:
  "length (remdups (map man_checksum (map load_sample [man_path ''a'', man_path ''b'']))) = 1 \<and>
   map_of (mdh_by_checksum [skel]) (man_checksum (load_sample (hd [man_path ''a'', man_path ''b'']))) = Some skel \<and>
   parse_man (load_sample (man_path ''a'')) skel \<noteq> Inr None \<and>
   parse_man (load_sample (man_path ''b'')) skel \<noteq> Inr None \<and>
   snd (convert_anis load_sample ''T.ASC'' [man_path ''a'', man_path ''b''] (mdh_by_checksum [skel]))
     \<noteq> Some TypeError"
proof -
  have ld: "load_sample \<lparr>relative_to_extract_path = ''ANIMS/a.MAN'', stem = ''a''\<rparr> = clip_a"
    "load_sample \<lparr>relative_to_extract_path = ''ANIMS/b.MAN'', stem = ''b''\<rparr> = clip_b"
    by (simp_all add: load_sample_def)
  have cs: "man_checksum clip_a = 7" "man_checksum clip_b = 7"
    by (simp_all add: clip_a_def clip_b_def stream_def)
  have h1: "length (remdups (map man_checksum (map load_sample [man_path ''a'', man_path ''b'']))) = 1"
    by (simp add: man_path_def ld cs)
  have h2: "map_of (mdh_by_checksum [skel])
      (man_checksum (load_sample (hd [man_path ''a'', man_path ''b'']))) = Some skel"
    by (simp add: man_path_def ld cs mdh_by_checksum_skel)
  from validated_merge_never_sees_None [OF h1 h2, of "([], None)" "''T.ASC''"]
  have "parse_man (load_sample (man_path ''a'')) skel \<noteq> Inr None"
    "parse_man (load_sample (man_path ''b'')) skel \<noteq> Inr None"
    "snd (convert_anis load_sample ''T.ASC'' [man_path ''a'', man_path ''b''] (mdh_by_checksum [skel]))
     \<noteq> Some TypeError"
    by simp_all
  with h1 h2 show ?thesis by blast
qed

end
